theory Spec2Isabelle
  imports Main
begin

section \<open>JSON values and the JavaScript operations the fetchers apply to them\<close>

text \<open>
  A decoded response body is a JSON value. Numbers are integers here (record counts,
  epoch seconds, identifiers); fractional numbers do not occur in what the fetchers
  inspect. An object carries its members in the order of the JSON text.
\<close>

datatype json =
    JNull
  | JBool bool
  | JNum int
  | JStr string
  | JArr "json list"
  | JObj "(string \<times> json) list"

datatype error = TransportError nat | TypeError | UnknownReportType

text \<open>
  Creating a property: an existing key keeps its position and takes the new value
  (\<^verbatim>\<open>JSON.parse\<close> with a repeated key, \<^verbatim>\<open>obj.k = v\<close>, object spread).
\<close>

fun set_prop :: "(string \<times> json) list \<Rightarrow> string \<Rightarrow> json \<Rightarrow> (string \<times> json) list" where
  "set_prop [] k v = [(k, v)]"
| "set_prop ((k', v') # ps) k v =
     (if k' = k then (k', v) # ps else (k', v') # set_prop ps k v)"

definition own_props :: "(string \<times> json) list \<Rightarrow> (string \<times> json) list" where
  "own_props ms = foldl (\<lambda>ps (k, v). set_prop ps k v) [] ms"

text \<open>The test \<^verbatim>\<open>/^\d+$/.test(k)\<close>: a non-empty string of ASCII digits.\<close>

definition is_digit :: "char \<Rightarrow> bool" where
  "is_digit c = (c \<in> set ''0123456789'')"

definition all_digits :: "string \<Rightarrow> bool" where
  "all_digits s = (s \<noteq> [] \<and> list_all is_digit s)"

definition digit_val :: "char \<Rightarrow> int" where
  "digit_val c = of_char c - 48"

definition int_of_digits :: "string \<Rightarrow> int" where
  "int_of_digits s = foldl (\<lambda>n c. 10 * n + digit_val c) 0 s"

text \<open>Decimal rendering of a non-negative integer (\<^verbatim>\<open>String(n)\<close>).\<close>

function dec_digits :: "int \<Rightarrow> string" where
  "dec_digits n =
     (if n < 10 then [char_of (48 + n)]
      else dec_digits (n div 10) @ [char_of (48 + n mod 10)])"
  by pat_completeness auto
termination
  by (relation "measure nat") auto

declare dec_digits.simps [simp del]

text \<open>
  An array index is a canonical decimal string below \<open>2^32 - 1\<close>. The own keys of an
  object are enumerated with the array indices first, in ascending numeric order, then
  the other keys in creation order (\<^verbatim>\<open>Object.keys\<close>, \<^verbatim>\<open>Object.values\<close>,
  \<^verbatim>\<open>Object.entries\<close>, spread).
\<close>

definition is_array_index :: "string \<Rightarrow> bool" where
  "is_array_index s =
     (all_digits s \<and> (s = ''0'' \<or> hd s \<noteq> CHR ''0'') \<and> int_of_digits s < 4294967295)"

definition own_entries :: "(string \<times> json) list \<Rightarrow> (string \<times> json) list" where
  "own_entries ms =
     (let ps = own_props ms in
      sort_key (\<lambda>p. int_of_digits (fst p)) (filter (\<lambda>p. is_array_index (fst p)) ps)
      @ filter (\<lambda>p. \<not> is_array_index (fst p)) ps)"

text \<open>
  \<^verbatim>\<open>Object.entries(v)\<close> for any value: the indexed elements of an array and
  the characters of a string are its own enumerable properties.
\<close>

fun object_entries :: "json \<Rightarrow> (string \<times> json) list" where
  "object_entries (JObj ms) = own_entries ms"
| "object_entries (JArr xs) = map (\<lambda>i. (dec_digits (int i), xs ! i)) [0..<length xs]"
| "object_entries (JStr s) = map (\<lambda>i. (dec_digits (int i), JStr [s ! i])) [0..<length s]"
| "object_entries _ = []"

definition object_keys :: "json \<Rightarrow> string list" where
  "object_keys v = map fst (object_entries v)"

definition object_values :: "json \<Rightarrow> json list" where
  "object_values v = map snd (object_entries v)"

text \<open>\<^verbatim>\<open>{ ...ps, ...v }\<close>: the own properties of \<open>v\<close> are set in their order.\<close>

definition spread :: "(string \<times> json) list \<Rightarrow> json \<Rightarrow> (string \<times> json) list" where
  "spread ps v = foldl (\<lambda>qs (k, x). set_prop qs k x) ps (object_entries v)"

text \<open>
  Reading a property by one of the names the fetchers use (\<^verbatim>\<open>data\<close>,
  \<^verbatim>\<open>rows\<close>, \<^verbatim>\<open>next_start_key\<close>, \<^verbatim>\<open>call_id\<close>, ...): \<open>None\<close> is
  \<^verbatim>\<open>undefined\<close>. Arrays, strings, numbers and booleans have none of these names;
  reading from \<^verbatim>\<open>null\<close> raises.
\<close>

fun get :: "json \<Rightarrow> string \<Rightarrow> json option" where
  "get (JObj ms) name = map_of (own_props ms) name"
| "get _ name = None"

definition read_prop :: "json \<Rightarrow> string \<Rightarrow> error + json option" where
  "read_prop v name = (if v = JNull then Inl TypeError else Inr (get v name))"

fun truthy :: "json \<Rightarrow> bool" where
  "truthy JNull = False"
| "truthy (JBool b) = b"
| "truthy (JNum n) = (n \<noteq> 0)"
| "truthy (JStr s) = (s \<noteq> [])"
| "truthy (JArr xs) = True"
| "truthy (JObj ms) = True"

fun truthy_opt :: "json option \<Rightarrow> bool" where
  "truthy_opt None = False"
| "truthy_opt (Some v) = truthy v"

fun as_array :: "json option \<Rightarrow> json list option" where
  "as_array (Some (JArr xs)) = Some xs"
| "as_array _ = None"

text \<open>
  \<^verbatim>\<open>===\<close> and \<^verbatim>\<open>Set.prototype.has\<close> on decoded values: primitives compare by
  value; every decoded array or object is a fresh reference, equal to no other.
\<close>

fun same_value :: "json \<Rightarrow> json \<Rightarrow> bool" where
  "same_value JNull JNull = True"
| "same_value (JBool a) (JBool b) = (a = b)"
| "same_value (JNum a) (JNum b) = (a = b)"
| "same_value (JStr a) (JStr b) = (a = b)"
| "same_value _ _ = False"

definition has :: "json list \<Rightarrow> json \<Rightarrow> bool" where
  "has seen k = list_ex (\<lambda>x. same_value x k) seen"

text \<open>String conversion, as a template literal performs it.\<close>

fun join_comma :: "string list \<Rightarrow> string" where
  "join_comma [] = []"
| "join_comma [s] = s"
| "join_comma (s # t # ss) = s @ '','' @ join_comma (t # ss)"

fun to_string :: "json \<Rightarrow> string" where
  "to_string JNull = ''null''"
| "to_string (JBool b) = (if b then ''true'' else ''false'')"
| "to_string (JNum n) = (if n < 0 then CHR ''-'' # dec_digits (- n) else dec_digits n)"
| "to_string (JStr s) = s"
| "to_string (JArr xs) = join_comma (map (\<lambda>x. if x = JNull then [] else to_string x) xs)"
| "to_string (JObj ms) = ''[object Object]''"

text \<open>\<^verbatim>\<open>${v || ''}\<close>\<close>

definition or_empty :: "json option \<Rightarrow> string" where
  "or_empty v = (case v of None \<Rightarrow> [] | Some x \<Rightarrow> if truthy x then to_string x else [])"

fun map_err :: "('a \<Rightarrow> error + 'b) \<Rightarrow> 'a list \<Rightarrow> error + 'b list" where
  "map_err f [] = Inr []"
| "map_err f (x # xs) =
     (case f x of
        Inl e \<Rightarrow> Inl e
      | Inr y \<Rightarrow> (case map_err f xs of Inl e \<Rightarrow> Inl e | Inr ys \<Rightarrow> Inr (y # ys)))"

section \<open>Payload normalisation\<close>

text \<open>
  \<^verbatim>\<open>fetchReport\<close>, the block that computes \<^verbatim>\<open>chunk\<close> from \<^verbatim>\<open>data\<close>:
  \<^verbatim>\<open>data.data\<close> is read first, so a \<^verbatim>\<open>null\<close> body raises.
\<close>

definition fetchReport_chunk :: "json \<Rightarrow> error + json list" where
  "fetchReport_chunk data =
     (case read_prop data ''data'' of
        Inl e \<Rightarrow> Inl e
      | Inr d \<Rightarrow>
         (case as_array d of
            Some xs \<Rightarrow> Inr xs
          | None \<Rightarrow>
             (case as_array (Some data) of
                Some xs \<Rightarrow> Inr xs
              | None \<Rightarrow>
                 (case as_array (get data ''rows'') of
                    Some xs \<Rightarrow> Inr xs
                  | None \<Rightarrow>
                     (case data of
                        JObj ms \<Rightarrow>
                          (let keys = object_keys data in
                           if length keys > 0 \<and> list_all all_digits keys
                           then Inr (object_values data)
                           else Inr (map (\<lambda>(k, v). JObj (spread [(''key'', JStr k)] v))
                                       (object_entries data)))
                      | _ \<Rightarrow> Inr [])))))"


text \<open>
  \<^verbatim>\<open>fetchReportSinglePage\<close>, the block that computes \<^verbatim>\<open>rawData\<close>: the same
  tests, but an object of any other shape is wrapped as a single record.
\<close>

definition singlePage_rawData :: "json \<Rightarrow> error + json list" where
  "singlePage_rawData data =
     (case read_prop data ''data'' of
        Inl e \<Rightarrow> Inl e
      | Inr d \<Rightarrow>
         (case as_array d of
            Some xs \<Rightarrow> Inr xs
          | None \<Rightarrow>
             (case as_array (Some data) of
                Some xs \<Rightarrow> Inr xs
              | None \<Rightarrow>
                 (case as_array (get data ''rows'') of
                    Some xs \<Rightarrow> Inr xs
                  | None \<Rightarrow>
                     (case data of
                        JObj ms \<Rightarrow>
                          (let keys = object_keys data in
                           if length keys > 0 \<and> list_all all_digits keys
                           then Inr (object_values data)
                           else Inr [data])
                      | _ \<Rightarrow> Inr [])))))"

text \<open>
  The callback of \<^verbatim>\<open>item.cdrs.map\<close>: a copy of the record with the fields of its
  \<^verbatim>\<open>fonoUC\<close> annotation lifted to the top level. \<^verbatim>\<open>cdr.fonoUC\<close> raises on a
  \<^verbatim>\<open>null\<close> element; every later read is guarded by a truthiness test.
\<close>

definition processedCdr :: "json \<Rightarrow> error + json" where
  "processedCdr cdr =
     (case read_prop cdr ''fonoUC'' of
        Inl e \<Rightarrow> Inl e
      | Inr f \<Rightarrow>
         (let p0 = spread [] cdr in
          if \<not> truthy_opt f then Inr (JObj p0)
          else
            (let fono = the f;
                 p1 = (if truthy_opt (get fono ''disposition'')
                       then set_prop p0 ''disposition'' (the (get fono ''disposition''))
                       else p0);
                 p2 = (if truthy_opt (get fono ''follow_up_notes'')
                       then set_prop p1 ''follow_up_notes'' (the (get fono ''follow_up_notes''))
                       else p1);
                 p3 = (if truthy_opt (get fono ''subdisposition'')
                       then
                         (let sub = the (get fono ''subdisposition'') in
                          case sub of
                            JStr str \<Rightarrow> set_prop p2 ''subdisposition'' sub
                          | _ \<Rightarrow>
                             if truthy_opt (get sub ''name'')
                             then
                               (if truthy_opt (get sub ''subdisposition'')
                                   \<and> truthy_opt (get (the (get sub ''subdisposition'')) ''name'')
                                then set_prop p2 ''subdisposition''
                                       (JStr (to_string (the (get sub ''name'')) @ '' - ''
                                          @ to_string (the (get (the (get sub ''subdisposition'')) ''name''))))
                                else set_prop p2 ''subdisposition'' (the (get sub ''name'')))
                             else p2)
                       else p2)
             in Inr (JObj p3))))"

text \<open>The body of \<^verbatim>\<open>for (const item of rawData)\<close>: the records one item contributes.\<close>

definition item_records :: "json \<Rightarrow> error + json list" where
  "item_records item =
     (case item of
        JObj ms \<Rightarrow>
          (case as_array (get item ''cdrs'') of
             Some cdrs \<Rightarrow> map_err processedCdr cdrs
           | None \<Rightarrow>
              (let itemKeys = object_keys item in
               if length itemKeys > 0 \<and> list_all all_digits itemKeys
               then Inr (object_values item)
               else Inr [item]))
      | JArr xs \<Rightarrow>
          (let itemKeys = object_keys item in
           if length itemKeys > 0 \<and> list_all all_digits itemKeys
           then Inr (object_values item)
           else Inr [item])
      | _ \<Rightarrow> Inr [item])"

fun flatten_items :: "json list \<Rightarrow> error + json list" where
  "flatten_items [] = Inr []"
| "flatten_items (item # items) =
     (case item_records item of
        Inl e \<Rightarrow> Inl e
      | Inr rs \<Rightarrow> (case flatten_items items of Inl e \<Rightarrow> Inl e | Inr rest \<Rightarrow> Inr (rs @ rest)))"

definition singlePage_records :: "json \<Rightarrow> error + json list" where
  "singlePage_records data =
     (case singlePage_rawData data of Inl e \<Rightarrow> Inl e | Inr rawData \<Rightarrow> flatten_items rawData)"

section \<open>Requests, the upstream and the retry loop of a single page\<close>

datatype report = Cdrs | QueueCalls | QueueOutboundCalls | CampaignsActivity | OtherReport

fun ENDPOINTS :: "report \<Rightarrow> string option" where
  "ENDPOINTS Cdrs = Some ''/api/v2/reports/cdrs/all''"
| "ENDPOINTS QueueCalls = Some ''/api/v2/reports/queues_cdrs''"
| "ENDPOINTS QueueOutboundCalls = Some ''/api/v2/reports/queues_outbound_cdrs''"
| "ENDPOINTS CampaignsActivity = Some ''/api/v2/reports/campaigns/leads/history''"
| "ENDPOINTS OtherReport = None"

definition MAX_RETRIES :: nat where
  "MAX_RETRIES = 3"

text \<open>
  The query parameters a fetcher builds, apart from the constant \<^verbatim>\<open>fields\<close>
  projection of each report kind. The routing layer supplies \<^verbatim>\<open>startDate\<close> and
  \<^verbatim>\<open>endDate\<close> as whole epoch seconds.
\<close>

record params =
  startDate :: "int option"
  endDate :: "int option"
  limit :: "int option"
  offset :: "int option"
  size_param :: "int option"
  count_param :: "int option"
  max_results :: "int option"
  per_page :: "int option"
  start_key :: "json option"

definition no_params :: params where
  "no_params = \<lparr> startDate = None, endDate = None, limit = None, offset = None,
     size_param = None, count_param = None, max_results = None, per_page = None,
     start_key = None \<rparr>"

text \<open>
  The upstream: what the \<open>n\<close>-th request of a run (token acquisition and GET) yields for
  its query, a raised error or the decoded body. The world records the effects of a
  run: the number of requests issued and the delays slept, in milliseconds.
\<close>

type_synonym upstream = "nat \<Rightarrow> params \<Rightarrow> error + json"

record world =
  calls :: nat
  sleeps :: "nat list"

definition world0 :: world where
  "world0 = \<lparr> calls = 0, sleeps = [] \<rparr>"

fun truthy_num :: "int option \<Rightarrow> bool" where
  "truthy_num None = False"
| "truthy_num (Some n) = (n \<noteq> 0)"

text \<open>
  \<^verbatim>\<open>fetchReportSinglePage\<close>. The body of its \<^verbatim>\<open>try\<close> block is one request
  and the processing of the body received; the retry loop runs it from \<^verbatim>\<open>attempt\<close>
  on. The result \<open>Inr None\<close> is the \<^verbatim>\<open>undefined\<close> the function returns if the loop
  ends without a return.
\<close>

definition page_attempt :: "upstream \<Rightarrow> params \<Rightarrow> nat \<Rightarrow> error + json list" where
  "page_attempt up qs n =
     (case up n qs of Inl e \<Rightarrow> Inl e | Inr data \<Rightarrow> singlePage_records data)"

function singlePage_loop ::
  "upstream \<Rightarrow> params \<Rightarrow> nat \<Rightarrow> nat \<Rightarrow> world \<Rightarrow> (error + json list option) \<times> world" where
  "singlePage_loop up qs attempt delay w =
     (if attempt < MAX_RETRIES then
        (let w1 = w\<lparr>calls := calls w + 1\<rparr> in
         case page_attempt up qs (calls w) of
           Inr records \<Rightarrow> (Inr (Some records), w1)
         | Inl err \<Rightarrow>
            if attempt = MAX_RETRIES - 1 then (Inl err, w1)
            else singlePage_loop up qs (attempt + 1) (delay * 2)
                   (w1\<lparr>sleeps := sleeps w1 @ [delay]\<rparr>))
      else (Inr None, w))"
  by pat_completeness auto
termination
  by (relation "measure (\<lambda>(up, qs, attempt, delay, w). MAX_RETRIES - attempt)") auto

declare singlePage_loop.simps [simp del]

definition fetchReportSinglePage ::
  "upstream \<Rightarrow> report \<Rightarrow> params \<Rightarrow> int option \<Rightarrow> world \<Rightarrow> (error + json list option) \<times> world" where
  "fetchReportSinglePage up rep ps lim w =
     (if ENDPOINTS rep = None then (Inl UnknownReportType, w)
      else singlePage_loop up (if truthy_num lim then ps\<lparr>limit := lim\<rparr> else ps) 0 1000 w)"

text \<open>\<^verbatim>\<open>fetchReportSinglePageEnhanced\<close>: the loop over \<^verbatim>\<open>paginationAttempts\<close> from index \<open>i\<close> on.\<close>

definition paginationAttempts :: "params \<Rightarrow> int option \<Rightarrow> params list" where
  "paginationAttempts ps lim =
     (if truthy_num lim
      then [ps\<lparr>limit := lim\<rparr>, ps\<lparr>size_param := lim\<rparr>, ps\<lparr>count_param := lim\<rparr>,
            ps\<lparr>max_results := lim\<rparr>, ps\<lparr>per_page := lim\<rparr>]
      else [ps, ps, ps, ps, ps])"

function enhanced_loop ::
  "upstream \<Rightarrow> report \<Rightarrow> params \<Rightarrow> int option \<Rightarrow> nat \<Rightarrow> world
     \<Rightarrow> (error + json list option) \<times> world" where
  "enhanced_loop up rep ps lim i w =
     (if i < length (paginationAttempts ps lim) then
        (case fetchReportSinglePage up rep (paginationAttempts ps lim ! i) lim w of
           (Inr result, w1) \<Rightarrow>
             if (case result of Some r \<Rightarrow> length r > 500 | None \<Rightarrow> False) then (Inr result, w1)
             else if i = 0 then
               (if (case lim of Some l \<Rightarrow> l \<noteq> 0 \<and> l > 500 | None \<Rightarrow> False)
                then enhanced_loop up rep ps lim (i + 1) w1
                else (Inr result, w1))
             else enhanced_loop up rep ps lim (i + 1) w1
         | (Inl err, w1) \<Rightarrow>
             if i = length (paginationAttempts ps lim) - 1 then (Inl err, w1)
             else enhanced_loop up rep ps lim (i + 1) w1)
      else fetchReportSinglePage up rep ps lim w)"
  by pat_completeness auto
termination
  by (relation "measure (\<lambda>(up, rep, ps, lim, i, w). length (paginationAttempts ps lim) - i)") auto

declare enhanced_loop.simps [simp del]

definition fetchReportSinglePageEnhanced ::
  "upstream \<Rightarrow> report \<Rightarrow> params \<Rightarrow> int option \<Rightarrow> world \<Rightarrow> (error + json list option) \<times> world" where
  "fetchReportSinglePageEnhanced up rep ps lim w = enhanced_loop up rep ps lim 0 w"

section \<open>The multi-page aggregator\<close>

text \<open>
  The derived identity of a record: its \<^verbatim>\<open>call_id\<close> when truthy, otherwise the
  composite string. Reading \<^verbatim>\<open>call_id\<close> from a \<^verbatim>\<open>null\<close> record raises.
\<close>

definition recordId :: "json \<Rightarrow> error + json" where
  "recordId record =
     (case read_prop record ''call_id'' of
        Inl e \<Rightarrow> Inl e
      | Inr c \<Rightarrow>
         if truthy_opt c then Inr (the c)
         else Inr (JStr (or_empty (get record ''caller_id_number'') @ ''_''
                @ or_empty (get record ''callee_id_number'') @ ''_''
                @ or_empty (get record ''timestamp'') @ ''_''
                @ or_empty (get record ''called_time''))))"

record mp_state =
  allRecords :: "json list"
  seenRecords :: "json list"
  currentOffset :: int
  hasMoreData :: bool
  pageCount :: nat
  consecutiveEmptyPages :: nat
  consecutiveDuplicatePages :: nat

definition mp_init :: mp_state where
  "mp_init = \<lparr> allRecords = [], seenRecords = [], currentOffset = 0, hasMoreData = True,
     pageCount = 0, consecutiveEmptyPages = 0, consecutiveDuplicatePages = 0 \<rparr>"

text \<open>
  The deduplicating loop over the records of a page (and, later, over the time-slice
  records). It updates \<^verbatim>\<open>allRecords\<close> and \<^verbatim>\<open>seenRecords\<close> only and returns the
  error raised, if any, both lists as the loop left them, and the count
  \<^verbatim>\<open>newRecords\<close>.
\<close>

fun dedup_records ::
  "json list \<Rightarrow> json list \<times> json list \<Rightarrow> nat \<Rightarrow> error option \<times> (json list \<times> json list) \<times> nat" where
  "dedup_records [] (allRecs, seen) newRecords = (None, (allRecs, seen), newRecords)"
| "dedup_records (record # rest) (allRecs, seen) newRecords =
     (case recordId record of
        Inl e \<Rightarrow> (Some e, (allRecs, seen), newRecords)
      | Inr rid \<Rightarrow>
         if \<not> has seen rid
         then dedup_records rest (allRecs @ [record], seen @ [rid]) (newRecords + 1)
         else dedup_records rest (allRecs, seen) newRecords)"

definition pageSize :: int where
  "pageSize = 500"

text \<open>
  One iteration of the \<^verbatim>\<open>while\<close> loop of \<^verbatim>\<open>fetchReportMultiPage\<close> (offset
  pagination), from \<^verbatim>\<open>pageCount++\<close> on: it throws (the error of the first page,
  re-thrown by the \<^verbatim>\<open>catch\<close> block), leaves the loop by \<^verbatim>\<open>break\<close>, or ends
  (also by \<^verbatim>\<open>continue\<close>) and hands the state to the loop condition.
\<close>

datatype mp_outcome = Thrown error | Broken mp_state | Next mp_state

definition multiPage_body ::
  "upstream \<Rightarrow> report \<Rightarrow> params \<Rightarrow> int \<Rightarrow> mp_state \<Rightarrow> world \<Rightarrow> mp_outcome \<times> world" where
  "multiPage_body up rep ps totalLimit s w =
     (let s1 = s\<lparr>pageCount := pageCount s + 1\<rparr>;
          pageParams = ps\<lparr>limit := Some (min pageSize (totalLimit - int (length (allRecords s)))),
                           offset := Some (currentOffset s)\<rparr>
      in case fetchReportSinglePage up rep pageParams (limit pageParams) w of
           (Inl err, w1) \<Rightarrow>
             if pageCount s1 = 1 then (Thrown err, w1)
             else (Next (s1\<lparr>hasMoreData := False\<rparr>), w1)
         | (Inr pageData, w1) \<Rightarrow>
             if (case pageData of None \<Rightarrow> True | Some rs \<Rightarrow> rs = []) then
               (let s2 = s1\<lparr>consecutiveEmptyPages := consecutiveEmptyPages s1 + 1\<rparr> in
                if consecutiveEmptyPages s2 \<ge> 2 then (Broken (s2\<lparr>hasMoreData := False\<rparr>), w1)
                else (Next (s2\<lparr>currentOffset := currentOffset s2 + pageSize\<rparr>), w1))
             else
               (case dedup_records (the pageData) (allRecords s1, seenRecords s1) 0 of
                  (Some err, (allRecs, seen), newRecords) \<Rightarrow>
                    if pageCount s1 = 1 then (Thrown err, w1)
                    else (Next (s1\<lparr>consecutiveEmptyPages := 0, allRecords := allRecs,
                                   seenRecords := seen, hasMoreData := False\<rparr>), w1)
                | (None, (allRecs, seen), newRecords) \<Rightarrow>
                    let s3 = s1\<lparr>consecutiveEmptyPages := 0, allRecords := allRecs,
                                 seenRecords := seen\<rparr> in
                    if newRecords = 0 \<and> consecutiveDuplicatePages s3 + 1 \<ge> 2
                    then (Broken (s3\<lparr>consecutiveDuplicatePages := consecutiveDuplicatePages s3 + 1\<rparr>), w1)
                    else
                      (let s4 = (if newRecords = 0
                                 then s3\<lparr>consecutiveDuplicatePages := consecutiveDuplicatePages s3 + 1\<rparr>
                                 else s3\<lparr>consecutiveDuplicatePages := 0\<rparr>);
                           s5 = (if int (length (the pageData)) < pageSize
                                 then s4\<lparr>hasMoreData := False\<rparr> else s4);
                           s6 = s5\<lparr>currentOffset := currentOffset s5 + int (length (the pageData))\<rparr>;
                           w2 = (if hasMoreData s6 \<and> int (length (allRecords s6)) < totalLimit
                                 then w1\<lparr>sleeps := sleeps w1 @ [100]\<rparr> else w1)
                       in (Next s6, w2))))"

text \<open>
  The loop itself. \<open>Inl\<close> is the error thrown out of \<^verbatim>\<open>fetchReportMultiPage\<close>;
  otherwise the state at loop exit.
\<close>

function multiPage_loop ::
  "upstream \<Rightarrow> report \<Rightarrow> params \<Rightarrow> int \<Rightarrow> mp_state \<Rightarrow> world \<Rightarrow> (error + mp_state) \<times> world" where
  "multiPage_loop up rep ps totalLimit s w =
     (if int (length (allRecords s)) < totalLimit \<and> hasMoreData s \<and> pageCount s < 5 then
        (case multiPage_body up rep ps totalLimit s w of
           (Thrown err, w1) \<Rightarrow> (Inl err, w1)
         | (Broken s', w1) \<Rightarrow> (Inr s', w1)
         | (Next s', w1) \<Rightarrow> multiPage_loop up rep ps totalLimit s' w1)
      else (Inr s, w))"
  by pat_completeness auto
termination
  by (relation "measure (\<lambda>(up, rep, ps, totalLimit, s, w). 5 - pageCount s)")
     (auto simp: multiPage_body_def Let_def split: prod.splits sum.splits option.splits if_splits)

declare multiPage_loop.simps [simp del]

section \<open>The time-slicing fallback\<close>

text \<open>
  The loop of \<^verbatim>\<open>fetchWithTimeSlicing\<close> that builds \<^verbatim>\<open>chunks\<close>, each chunk a pair
  \<open>(startDate, endDate)\<close>. It has no bound of its own: \<open>None\<close> is a loop that never ends.
\<close>

partial_function (option) chunk_loop ::
  "int \<Rightarrow> int \<Rightarrow> int \<Rightarrow> (int \<times> int) list \<Rightarrow> (int \<times> int) list option" where
  "chunk_loop chunkStart endTime chunkDuration chunks =
     (if chunkStart < endTime
      then chunk_loop (chunkStart + chunkDuration) endTime chunkDuration
             (chunks @ [(chunkStart, min (chunkStart + chunkDuration) endTime)])
      else Some chunks)"

declare chunk_loop.simps [code]

text \<open>
  \<^verbatim>\<open>Math.min(14400, Math.floor(totalDuration / 4))\<close>; integer division rounds
  down, as \<^verbatim>\<open>Math.floor\<close> does.
\<close>

definition chunkDuration_of :: "int \<Rightarrow> int \<Rightarrow> int" where
  "chunkDuration_of startTime endTime = min 14400 ((endTime - startTime) div 4)"

definition time_chunks :: "int \<Rightarrow> int \<Rightarrow> (int \<times> int) list option" where
  "time_chunks startTime endTime =
     chunk_loop startTime endTime (chunkDuration_of startTime endTime) []"

text \<open>The loop over the chunks: one single-page fetch per chunk, errors swallowed.\<close>

fun slices_loop ::
  "upstream \<Rightarrow> report \<Rightarrow> params \<Rightarrow> int \<Rightarrow> (int \<times> int) list \<Rightarrow> json list \<Rightarrow> world
     \<Rightarrow> json list \<times> world" where
  "slices_loop up rep ps remainingLimit [] timeSliceRecords w = (timeSliceRecords, w)"
| "slices_loop up rep ps remainingLimit (chunk # chunks) timeSliceRecords w =
     (if int (length timeSliceRecords) < remainingLimit then
        (case fetchReportSinglePage up rep
                (ps\<lparr>startDate := Some (fst chunk), endDate := Some (snd chunk), limit := Some 500\<rparr>)
                (Some 500) w of
           (Inr chunkData, w1) \<Rightarrow>
             slices_loop up rep ps remainingLimit chunks
               (timeSliceRecords @ (case chunkData of Some rs \<Rightarrow> rs | None \<Rightarrow> []))
               (w1\<lparr>sleeps := sleeps w1 @ [200]\<rparr>)
         | (Inl err, w1) \<Rightarrow> slices_loop up rep ps remainingLimit chunks timeSliceRecords w1)
      else (timeSliceRecords, w))"

text \<open>
  \<^verbatim>\<open>fetchWithTimeSlicing\<close>. It is called only with both dates present; with a date
  missing \<^verbatim>\<open>parseInt\<close> gives \<^verbatim>\<open>NaN\<close>, every comparison is false and there is no
  chunk.
\<close>

definition fetchWithTimeSlicing ::
  "upstream \<Rightarrow> report \<Rightarrow> params \<Rightarrow> int \<Rightarrow> world \<Rightarrow> (json list \<times> world) option" where
  "fetchWithTimeSlicing up rep ps remainingLimit w =
     (case (startDate ps, endDate ps) of
        (Some startTime, Some endTime) \<Rightarrow>
          (case time_chunks startTime endTime of
             None \<Rightarrow> None
           | Some chunks \<Rightarrow> Some (slices_loop up rep ps remainingLimit chunks [] w))
      | _ \<Rightarrow> Some ([], w))"

text \<open>\<^verbatim>\<open>xs.slice(0, n)\<close>: a negative \<open>n\<close> counts from the end.\<close>

definition slice0 :: "'a list \<Rightarrow> int \<Rightarrow> 'a list" where
  "slice0 xs n = (if n < 0 then take (nat (int (length xs) + n)) xs else take (nat n) xs)"

text \<open>
  \<^verbatim>\<open>fetchReportMultiPage\<close>: the offset loop, then (\<open>multiPage_finish\<close>) the time
  slices when the condition holds and the final \<^verbatim>\<open>slice\<close>. \<open>None\<close>: the call never
  returns.
\<close>

definition slicing_wanted :: "params \<Rightarrow> int \<Rightarrow> mp_state \<Rightarrow> bool" where
  "slicing_wanted ps totalLimit s =
     (int (length (allRecords s)) < totalLimit
      \<and> (consecutiveDuplicatePages s \<ge> 1 \<or> (pageCount s \<ge> 2 \<and> length (allRecords s) = 500))
      \<and> truthy_num (startDate ps) \<and> truthy_num (endDate ps))"

definition multiPage_finish ::
  "upstream \<Rightarrow> report \<Rightarrow> params \<Rightarrow> int \<Rightarrow> mp_state \<Rightarrow> world \<Rightarrow> ((error + json list) \<times> world) option" where
  "multiPage_finish up rep ps totalLimit s w =
     (if slicing_wanted ps totalLimit s then
        (case fetchWithTimeSlicing up rep ps (totalLimit - int (length (allRecords s))) w of
           None \<Rightarrow> None
         | Some (timeSliceRecords, w2) \<Rightarrow>
             (case dedup_records timeSliceRecords (allRecords s, seenRecords s) 0 of
                (Some err, st, added) \<Rightarrow> Some (Inl err, w2)
              | (None, (allRecs, seen), added) \<Rightarrow> Some (Inr (slice0 allRecs totalLimit), w2)))
      else Some (Inr (slice0 (allRecords s) totalLimit), w))"

definition fetchReportMultiPage ::
  "upstream \<Rightarrow> report \<Rightarrow> params \<Rightarrow> int \<Rightarrow> world \<Rightarrow> ((error + json list) \<times> world) option" where
  "fetchReportMultiPage up rep ps totalLimit w =
     (case multiPage_loop up rep ps totalLimit mp_init w of
        (Inl err, w1) \<Rightarrow> Some (Inl err, w1)
      | (Inr s, w1) \<Rightarrow> multiPage_finish up rep ps totalLimit s w1)"

section \<open>The cursor pagination of \<^verbatim>\<open>fetchReport\<close>\<close>

record fr_state =
  out :: "json list"
  startKey :: "json option"
  seenStartKeys :: "json list"
  consecutiveSameKey :: nat

definition fr_init :: fr_state where
  "fr_init = \<lparr> out = [], startKey = None, seenStartKeys = [], consecutiveSameKey = 0 \<rparr>"

text \<open>
  What the code after \<^verbatim>\<open>out.push(...chunk)\<close> decides from \<^verbatim>\<open>data.next_start_key\<close>:
  leave the \<^verbatim>\<open>while\<close> loop, or go round again with the new cursor.
\<close>

datatype 'a step = Break 'a | Continue 'a

definition on_next_start_key :: "json option \<Rightarrow> fr_state \<Rightarrow> fr_state step" where
  "on_next_start_key next s =
     (if truthy_opt next then
        (let same = (case startKey s of None \<Rightarrow> False | Some k \<Rightarrow> same_value k (the next));
             s1 = (if same then s\<lparr>consecutiveSameKey := consecutiveSameKey s + 1\<rparr>
                   else s\<lparr>consecutiveSameKey := 0\<rparr>)
         in if same \<and> consecutiveSameKey s1 \<ge> 3 then Break s1
            else if has (seenStartKeys s1) (the next) then Break s1
            else Continue (s1\<lparr>seenStartKeys := seenStartKeys s1 @ [the next], startKey := next\<rparr>))
      else Break s)"

text \<open>
  \<^verbatim>\<open>fetchReport\<close>, lines 119 to 297: the retry loop around the pagination loop, as
  one loop over requests. The loop variables \<^verbatim>\<open>attempt\<close> and \<^verbatim>\<open>delay\<close> of the
  \<^verbatim>\<open>for\<close> statement are arguments. The result is the error thrown or the state when
  the labelled loop is left; \<open>None\<close> is a run that never leaves it. The post-processing
  of \<^verbatim>\<open>out\<close> that follows issues no request.
\<close>

partial_function (option) fetchReport_loop ::
  "upstream \<Rightarrow> params \<Rightarrow> nat \<Rightarrow> nat \<Rightarrow> fr_state \<Rightarrow> world \<Rightarrow> ((error + fr_state) \<times> world) option" where
  "fetchReport_loop up ps attempt delay s w =
     (if attempt < MAX_RETRIES then
        (let qs = (if truthy_opt (startKey s) then ps\<lparr>start_key := startKey s\<rparr> else ps);
             w1 = w\<lparr>calls := calls w + 1\<rparr>
         in case (case up (calls w) qs of
                    Inl e \<Rightarrow> Inl e
                  | Inr data \<Rightarrow>
                      (case fetchReport_chunk data of Inl e \<Rightarrow> Inl e | Inr chunk \<Rightarrow> Inr (data, chunk))) of
              Inl err \<Rightarrow>
                if attempt = MAX_RETRIES - 1 then Some (Inl err, w1)
                else fetchReport_loop up ps (attempt + 1) (delay * 2) s
                       (w1\<lparr>sleeps := sleeps w1 @ [delay]\<rparr>)
            | Inr (data, chunk) \<Rightarrow>
                (case on_next_start_key (get data ''next_start_key'') (s\<lparr>out := out s @ chunk\<rparr>) of
                   Break s' \<Rightarrow> Some (Inr s', w1)
                 | Continue s' \<Rightarrow> fetchReport_loop up ps attempt delay s' w1))
      else Some (Inr s, w))"

declare fetchReport_loop.simps [code]

definition fetchReport :: "upstream \<Rightarrow> report \<Rightarrow> params \<Rightarrow> world \<Rightarrow> ((error + fr_state) \<times> world) option" where
  "fetchReport up rep ps w =
     (if ENDPOINTS rep = None then Some (Inl UnknownReportType, w)
      else fetchReport_loop up ps 0 1000 fr_init w)"

section \<open>The limit of a request in the routing layer\<close>

definition is_space :: "char \<Rightarrow> bool" where
  "is_space c = (c \<in> set [CHR '' '', CHR 0x09, CHR 0x0A, CHR 0x0B, CHR 0x0C, CHR 0x0D])"

text \<open>
  \<^verbatim>\<open>parseInt(s, 10)\<close> on a string: leading white space, an optional sign, then the
  longest prefix of digits; \<open>None\<close> is \<^verbatim>\<open>NaN\<close>.
\<close>

definition parseInt10 :: "string \<Rightarrow> int option" where
  "parseInt10 s =
     (let t = dropWhile is_space s;
          neg = (t \<noteq> [] \<and> hd t = CHR ''-'');
          u = (if t \<noteq> [] \<and> (hd t = CHR ''-'' \<or> hd t = CHR ''+'') then tl t else t);
          ds = takeWhile is_digit u
      in if ds = [] then None
         else Some (if neg then - int_of_digits ds else int_of_digits ds))"

text \<open>
  The route \<^verbatim>\<open>GET /api/reports/:type\<close>, from the parsing of the \<^verbatim>\<open>limit\<close> query
  parameter on (a missing or empty parameter is falsy): \<open>Inl\<close> is the 400 response.
\<close>

definition recordLimit_of :: "string option \<Rightarrow> string + int option" where
  "recordLimit_of lim =
     (case lim of
        None \<Rightarrow> Inr None
      | Some s \<Rightarrow>
          if s = [] then Inr None
          else
            (case parseInt10 s of
               None \<Rightarrow> Inl ''Invalid limit parameter. Must be a positive integer.''
             | Some recordLimit \<Rightarrow>
                 if recordLimit < 1 then Inl ''Invalid limit parameter. Must be a positive integer.''
                 else if recordLimit > 10000 then Inr (Some 10000)
                 else Inr (Some recordLimit)))"

datatype response = Status400 string | Status500 error | Status200 "json list"

definition reports_route ::
  "upstream \<Rightarrow> report \<Rightarrow> params \<Rightarrow> string option \<Rightarrow> world \<Rightarrow> (response \<times> world) option" where
  "reports_route up rep ps lim w =
     (case recordLimit_of lim of
        Inl msg \<Rightarrow> Some (Status400 msg, w)
      | Inr recordLimit \<Rightarrow>
          if (case recordLimit of Some l \<Rightarrow> l > 500 | None \<Rightarrow> False) then
            (case fetchReportMultiPage up rep ps (the recordLimit) w of
               None \<Rightarrow> None
             | Some (Inl err, w1) \<Rightarrow> Some (Status500 err, w1)
             | Some (Inr data, w1) \<Rightarrow> Some (Status200 data, w1))
          else
            (case fetchReportSinglePageEnhanced up rep ps recordLimit w of
               (Inl err, w1) \<Rightarrow> Some (Status500 err, w1)
             | (Inr None, w1) \<Rightarrow> Some (Status500 TypeError, w1)
             | (Inr (Some data), w1) \<Rightarrow> Some (Status200 data, w1)))"

section \<open>Reachable states and example upstreams\<close>

text \<open>
  The states in which the pagination loop of \<^verbatim>\<open>fetchReport\<close> issues a request: the
  initial one, and the state after any page (whatever its records and its
  \<^verbatim>\<open>next_start_key\<close>) that made the loop go round again. A retry leaves the state as
  it is.
\<close>

inductive fr_reach :: "fr_state \<Rightarrow> bool" where
  init: "fr_reach fr_init"
| page: "fr_reach s \<Longrightarrow> on_next_start_key next (s\<lparr>out := out s @ chunk\<rparr>) = Continue s'
           \<Longrightarrow> fr_reach s'"

text \<open>An upstream whose first two requests fail and whose later bodies are empty arrays.\<close>

definition flaky_upstream :: upstream where
  "flaky_upstream n q = (if n < 2 then Inl (TransportError n) else Inr (JArr []))"

text \<open>An upstream that answers every request with one record and the cursor \<open>A\<close>.\<close>

definition stuck_body :: "nat \<Rightarrow> json" where
  "stuck_body n = JObj [(''data'', JArr [JNum (int n)]), (''next_start_key'', JStr ''A'')]"

definition stuck_upstream :: upstream where
  "stuck_upstream n q = Inr (stuck_body n)"

definition after_first_page :: fr_state where
  "after_first_page = \<lparr> out = [JNum 0], startKey = Some (JStr ''A''),
     seenStartKeys = [JStr ''A''], consecutiveSameKey = 0 \<rparr>"

text \<open>
  A list of chunks partitions the range from \<open>a\<close> to \<open>b\<close>: the first chunk starts at
  \<open>a\<close>, every chunk is non-empty and starts where the one before it ends, and the last
  one ends at \<open>b\<close>. An empty range has no chunk.
\<close>

fun covers :: "int \<Rightarrow> int \<Rightarrow> (int \<times> int) list \<Rightarrow> bool" where
  "covers a b [] = (b \<le> a)"
| "covers a b (c # cs) = (fst c = a \<and> fst c < snd c \<and> snd c \<le> b \<and> covers (snd c) b cs)"

text \<open>An upstream that answers every request with the same two records, whatever the limit.\<close>

definition two_record_upstream :: upstream where
  "two_record_upstream n q =
     Inr (JArr [JObj [(''call_id'', JStr ''a'')], JObj [(''call_id'', JStr ''b'')]])"

text \<open>
  An upstream that returns a cursor never returned before on every page: the cursor of
  the \<open>n\<close>-th request is a string of \<open>n + 1\<close> letters.
\<close>

definition fresh_key :: "nat \<Rightarrow> json" where
  "fresh_key n = JStr (replicate (Suc n) (CHR ''k''))"

definition fresh_body :: "nat \<Rightarrow> json" where
  "fresh_body n = JObj [(''data'', JArr []), (''next_start_key'', fresh_key n)]"

definition fresh_upstream :: upstream where
  "fresh_upstream n q = Inr (fresh_body n)"

text \<open>A cursor that \<open>fresh_upstream\<close> returned before its \<open>n\<close>-th request.\<close>

definition older :: "nat \<Rightarrow> json \<Rightarrow> bool" where
  "older n k = (\<exists>m < n. k = fresh_key m)"



text \<open>The identity of a record that has one.\<close>

definition record_key :: "json \<Rightarrow> json" where
  "record_key r = (case recordId r of Inl e \<Rightarrow> JNull | Inr k \<Rightarrow> k)"

text \<open>
  The records of \<open>rs\<close> that a merge keeps: those whose identity is neither in \<open>seen\<close> nor
  the identity of an earlier record of \<open>rs\<close>, so of several copies the first one.
\<close>

definition first_copies :: "json list \<Rightarrow> json list \<Rightarrow> json list" where
  "first_copies seen rs =
     map (\<lambda>i. rs ! i)
       (filter (\<lambda>i. \<not> has seen (record_key (rs ! i))
                  \<and> list_all (\<lambda>j. \<not> same_value (record_key (rs ! j)) (record_key (rs ! i)))
                        [0..<i])
          [0..<length rs])"



text \<open>An upstream whose page holds two copies of the call \<open>a\<close> and a record with no \<^verbatim>\<open>call_id\<close>.\<close>

definition first_a :: json where
  "first_a = JObj [(''call_id'', JStr ''a''), (''timestamp'', JNum 1)]"

definition second_a :: json where
  "second_a = JObj [(''call_id'', JStr ''a''), (''timestamp'', JNum 2)]"

definition only_b :: json where
  "only_b = JObj [(''caller_id_number'', JStr ''b'')]"

definition duplicate_upstream :: upstream where
  "duplicate_upstream n q = Inr (JArr [first_a, second_a, only_b])"

text \<open>
  The states and worlds in which the offset loop of \<^verbatim>\<open>fetchReportMultiPage\<close>, started
  in the world \<open>w0\<close>, evaluates its condition: the initial ones, and those after every
  iteration that ended without \<^verbatim>\<open>throw\<close> or \<^verbatim>\<open>break\<close>.
\<close>

inductive mp_reach :: "upstream \<Rightarrow> report \<Rightarrow> params \<Rightarrow> int \<Rightarrow> world \<Rightarrow> mp_state \<Rightarrow> world \<Rightarrow> bool"
  for up rep ps totalLimit w0 where
  start: "mp_reach up rep ps totalLimit w0 mp_init w0"
| iter: "mp_reach up rep ps totalLimit w0 s w
          \<Longrightarrow> int (length (allRecords s)) < totalLimit \<Longrightarrow> hasMoreData s \<Longrightarrow> pageCount s < 5
          \<Longrightarrow> multiPage_body up rep ps totalLimit s w = (Next s', w')
          \<Longrightarrow> mp_reach up rep ps totalLimit w0 s' w'"

text \<open>
  An upstream for a request with a time range of 16 seconds: two pages of 500 copies of
  one record, then three failing requests, then one other record per request.
\<close>

definition c10_upstream :: upstream where
  "c10_upstream n q =
     (if n < 2 then Inr (JObj [(''data'', JArr (replicate 500 first_a))])
      else if n < 5 then Inl (TransportError n)
      else Inr (JArr [only_b]))"

definition c10_params :: params where
  "c10_params = no_params\<lparr>startDate := Some 1000, endDate := Some 1016\<rparr>"

definition c10_after_two :: mp_state where
  "c10_after_two = \<lparr> allRecords = [first_a], seenRecords = [JStr ''a''], currentOffset = 1000,
     hasMoreData = True, pageCount = 2, consecutiveEmptyPages = 0,
     consecutiveDuplicatePages = 1 \<rparr>"

text \<open>
  The payload normaliser as the specification words it, to be compared with
  \<open>fetchReport_chunk\<close>: an array as it is; the \<^verbatim>\<open>data\<close> or \<^verbatim>\<open>rows\<close> array of a
  mapping; the values of a mapping whose keys are exactly \<open>0\<close>, \<open>1\<close>, ..., \<open>n - 1\<close>, in
  ascending key order; otherwise one record per key and value, with the key put in.
\<close>

definition pseudo_array_keys :: "string list \<Rightarrow> bool" where
  "pseudo_array_keys ks = (set ks = set (map (\<lambda>i. dec_digits (int i)) [0..<length ks]))"

definition spec_normalize :: "json \<Rightarrow> json list" where
  "spec_normalize body =
     (case body of
        JArr xs \<Rightarrow> xs
      | JObj ms \<Rightarrow>
          (case as_array (get body ''data'') of
             Some xs \<Rightarrow> xs
           | None \<Rightarrow>
              (case as_array (get body ''rows'') of
                 Some xs \<Rightarrow> xs
               | None \<Rightarrow>
                  if pseudo_array_keys (object_keys body)
                  then map (\<lambda>i. the (get body (dec_digits (int i)))) [0..<length (object_keys body)]
                  else map (\<lambda>(k, v). JObj (spread [(''key'', JStr k)] v)) (object_entries body)))
      | _ \<Rightarrow> [])"

text \<open>A mapping whose only key is a digit string other than \<open>0\<close>, and a mapping with
  the keys \<open>1\<close> and \<open>0\<close> in this order.\<close>

definition sparse_body :: json where
  "sparse_body = JObj [(''5'', JObj [(''a'', JNum 1)])]"

definition swapped_body :: json where
  "swapped_body = JObj [(''1'', JNum 10), (''0'', JNum 20)]"

text \<open>
  The part of the \<^verbatim>\<open>try\<close> block of \<^verbatim>\<open>fetchReport\<close> that can raise: the request
  issued in the state \<open>s\<close> and the world \<open>w\<close>, and the normalisation of the body
  received.
\<close>

definition request ::
  "upstream \<Rightarrow> params \<Rightarrow> fr_state \<Rightarrow> world \<Rightarrow> error + json \<times> json list" where
  "request up ps s w =
     (case up (calls w) (if truthy_opt (startKey s) then ps\<lparr>start_key := startKey s\<rparr> else ps) of
        Inl e \<Rightarrow> Inl e
      | Inr data \<Rightarrow>
          (case fetchReport_chunk data of Inl e \<Rightarrow> Inl e | Inr chunk \<Rightarrow> Inr (data, chunk)))"

text \<open>
  The run of \<^verbatim>\<open>fetchReport\<close> started in the world \<open>ws\<close>: the loop variables
  \<^verbatim>\<open>attempt\<close> and \<^verbatim>\<open>delay\<close>, the state and the world with which it issues a
  request, and the cursors that the pages received so far have returned, in order. A
  failed request that is not the last one allowed is followed by the sleep and a new
  attempt in the same state; a page that makes the loop go round again adds the cursor
  it returned.
\<close>

inductive fr_run ::
  "upstream \<Rightarrow> params \<Rightarrow> world \<Rightarrow> nat \<Rightarrow> nat \<Rightarrow> fr_state \<Rightarrow> world \<Rightarrow> json list \<Rightarrow> bool"
  for up ps ws where
  start: "fr_run up ps ws 0 1000 fr_init ws []"
| retry: "fr_run up ps ws attempt delay s w returned
          \<Longrightarrow> request up ps s w = Inl err
          \<Longrightarrow> attempt \<noteq> MAX_RETRIES - 1
          \<Longrightarrow> fr_run up ps ws (attempt + 1) (delay * 2) s
                (w\<lparr>calls := calls w + 1, sleeps := sleeps w @ [delay]\<rparr>) returned"
| page: "fr_run up ps ws attempt delay s w returned
          \<Longrightarrow> up (calls w) (if truthy_opt (startKey s) then ps\<lparr>start_key := startKey s\<rparr> else ps)
              = Inr data
          \<Longrightarrow> fetchReport_chunk data = Inr chunk
          \<Longrightarrow> get data ''next_start_key'' = Some nxt
          \<Longrightarrow> on_next_start_key (Some nxt) (s\<lparr>out := out s @ chunk\<rparr>) = Continue s'
          \<Longrightarrow> fr_run up ps ws attempt delay s' (w\<lparr>calls := calls w + 1\<rparr>) (returned @ [nxt])"

text \<open>
  An upstream that returns the cursors \<open>A\<close>, \<open>B\<close>, \<open>A\<close>, ...: the third page returns a
  cursor that is not the one just used and that the first page has returned.
\<close>

definition cycle_body :: "nat \<Rightarrow> json" where
  "cycle_body n =
     JObj [(''data'', JArr [JNum (int n)]),
           (''next_start_key'', JStr (if n = 1 then ''B'' else ''A''))]"

definition cycle_upstream :: upstream where
  "cycle_upstream n q = Inr (cycle_body n)"

text \<open>
  An upstream whose requests fail and succeed in turn: the first, third and fifth fail,
  the second and fourth return a page with the cursors \<open>A\<close> and \<open>B\<close>.
\<close>

definition budget_upstream :: upstream where
  "budget_upstream n q =
     (if n = 1 \<or> n = 3
      then Inr (JObj [(''data'', JArr [JNum (int n)]),
                      (''next_start_key'', JStr (if n = 1 then ''A'' else ''B''))])
      else Inl (TransportError n))"






text \<open>\<^verbatim>\<open>item && typeof item === 'object'\<close> on a decoded value: an object or an array.\<close>

fun is_object :: "json \<Rightarrow> bool" where
  "is_object (JObj ms) = True"
| "is_object (JArr xs) = True"
| "is_object _ = False"

text \<open>\<^verbatim>\<open>keys.length > 0 && keys.every(k => /^\d+$/.test(k))\<close> for the keys of \<open>v\<close>.\<close>

definition numeric_keys :: "json \<Rightarrow> bool" where
  "numeric_keys v = (object_keys v \<noteq> [] \<and> list_all all_digits (object_keys v))"

text \<open>A mapping of no recognised shape that holds its records under \<^verbatim>\<open>cdrs\<close>.\<close>

definition wrapped_body :: json where
  "wrapped_body =
     JObj [(''cdrs'', JArr [JObj [(''call_id'', JStr ''a'')],
              JObj [(''call_id'', JStr ''b''), (''fonoUC'', JObj [(''disposition'', JStr ''sale'')])]]),
           (''total'', JNum 2)]"

section \<open>Properties of the routing layer and the retry loop\<close>

text \<open>
  Claim C9. A \<^verbatim>\<open>limit\<close> parameter that parses to more than 10000 becomes the record
  limit 10000 before anything is fetched: the route hands exactly 10000 to the
  multi-page aggregator, in the world in which the request arrived.
\<close>

theorem limit_clamped:
  assumes "parseInt10 s = Some n" and "10000 < n"
  shows "recordLimit_of (Some s) = Inr (Some 10000)
       \<and> reports_route up rep ps (Some s) w =
           (case fetchReportMultiPage up rep ps 10000 w of
              None \<Rightarrow> None
            | Some (Inl err, w1) \<Rightarrow> Some (Status500 err, w1)
            | Some (Inr data, w1) \<Rightarrow> Some (Status200 data, w1))"
proof -
  have "s \<noteq> []" using assms(1) by (auto simp: parseInt10_def)
  then have rl: "recordLimit_of (Some s) = Inr (Some 10000)"
    using assms by (simp add: recordLimit_of_def)
  then show ?thesis by (simp add: reports_route_def)
qed

theorem limit_clamped_witness:
  "parseInt10 ''50000'' = Some 50000 \<and> (10000::int) < 50000
   \<and> recordLimit_of (Some ''50000'') = Inr (Some 10000)"
proof -
  have h: "parseInt10 ''50000'' = Some 50000" by code_simp
  have g: "(10000::int) < 50000" by simp
  show ?thesis using h g limit_clamped [OF h g] by simp
qed

lemma recordLimit_bounds:
  "recordLimit_of lim = Inr (Some l) \<Longrightarrow> 1 \<le> l \<and> l \<le> 10000"
  by (auto simp: recordLimit_of_def split: option.splits if_splits)

text \<open>
  For a known report kind, \<^verbatim>\<open>fetchReportSinglePage\<close> runs its request between one
  and three times. Before each retry it sleeps 1000 times 2 to the number of the failed
  attempt, in milliseconds; every attempt before the last one made has failed; an error
  result is the error of the third attempt, unchanged; a success is the result of the
  last attempt made, so nothing is retried after it.
\<close>

lemma singlePage_retries:
  assumes "ENDPOINTS rep \<noteq> None"
    and "fetchReportSinglePage up rep ps lim w = (r, w')"
  shows "(let qs = (if truthy_num lim then ps\<lparr>limit := lim\<rparr> else ps);
              n = calls w' - calls w
          in 1 \<le> n \<and> n \<le> MAX_RETRIES \<and> calls w' = calls w + n
           \<and> sleeps w' = sleeps w @ map (\<lambda>a. 1000 * 2 ^ a) [0..<n - 1]
           \<and> (\<forall>a < n - 1. isl (page_attempt up qs (calls w + a)))
           \<and> (case r of
                 Inl e \<Rightarrow> n = MAX_RETRIES \<and> page_attempt up qs (calls w + n - 1) = Inl e
               | Inr x \<Rightarrow> x \<noteq> None \<and> page_attempt up qs (calls w + n - 1) = Inr (the x)))"
proof -
  define qs where "qs = (if truthy_num lim then ps\<lparr>limit := lim\<rparr> else ps)"
  define c where "c = calls w"
  define a0 where "a0 = page_attempt up qs c"
  define a1 where "a1 = page_attempt up qs (Suc c)"
  define a2 where "a2 = page_attempt up qs (Suc (Suc c))"
  note defs = a0_def [symmetric] a1_def [symmetric] a2_def [symmetric] c_def [symmetric]
  have L: "singlePage_loop up qs 0 1000 w = (r, w')"
    using assms by (auto simp: fetchReportSinglePage_def qs_def)
  have two: "[0..<2] = [0, Suc 0]" by (simp add: upt_rec)
  have lt2: "\<And>i. i < 2 \<longleftrightarrow> i = 0 \<or> i = Suc 0" by auto
  have idx: "c + 2 - 1 = Suc c" "c + 3 - 1 = Suc (Suc c)" "c + 2 - c = 2" "c + 3 - c = 3"
    by simp_all
  consider (s0) x where "a0 = Inr x"
    | (s1) e0 x where "a0 = Inl e0" "a1 = Inr x"
    | (s2) e0 e1 x where "a0 = Inl e0" "a1 = Inl e1" "a2 = Inr x"
    | (f) e0 e1 e2 where "a0 = Inl e0" "a1 = Inl e1" "a2 = Inl e2"
    by (cases a0; cases a1; cases a2) auto
  then have "1 \<le> calls w' - c \<and> calls w' - c \<le> MAX_RETRIES
           \<and> calls w' = c + (calls w' - c)
           \<and> sleeps w' = sleeps w @ map (\<lambda>a. 1000 * 2 ^ a) [0..<calls w' - c - 1]
           \<and> (\<forall>i < calls w' - c - 1. isl (page_attempt up qs (c + i)))
           \<and> (case r of
                 Inl e \<Rightarrow> calls w' - c = MAX_RETRIES
                           \<and> page_attempt up qs (c + (calls w' - c) - 1) = Inl e
               | Inr x \<Rightarrow> x \<noteq> None \<and> page_attempt up qs (c + (calls w' - c) - 1) = Inr (the x))"
  proof cases
    case s0
    with L have "r = Inr (Some x)" "w' = w\<lparr>calls := c + 1\<rparr>"
      by (auto simp: singlePage_loop.simps [of up qs 0] MAX_RETRIES_def defs)
    with s0 show ?thesis by (simp add: MAX_RETRIES_def defs)
  next
    case s1
    with L have "r = Inr (Some x)" "w' = w\<lparr>calls := c + 2, sleeps := sleeps w @ [1000]\<rparr>"
      by (auto simp: singlePage_loop.simps [of up qs 0] singlePage_loop.simps [of up qs "Suc 0"]
            MAX_RETRIES_def defs)
    with s1 show ?thesis by (simp add: MAX_RETRIES_def idx defs)
  next
    case s2
    with L have "r = Inr (Some x)"
      "w' = w\<lparr>calls := c + 3, sleeps := sleeps w @ [1000, 2000]\<rparr>"
      by (auto simp: singlePage_loop.simps [of up qs 0] singlePage_loop.simps [of up qs "Suc 0"]
            singlePage_loop.simps [of up qs "Suc (Suc 0)"] MAX_RETRIES_def defs numeral_2_eq_2)
    with s2 show ?thesis by (auto simp: MAX_RETRIES_def two lt2 idx defs)
  next
    case f
    with L have "r = Inl e2"
      "w' = w\<lparr>calls := c + 3, sleeps := sleeps w @ [1000, 2000]\<rparr>"
      by (auto simp: singlePage_loop.simps [of up qs 0] singlePage_loop.simps [of up qs "Suc 0"]
            singlePage_loop.simps [of up qs "Suc (Suc 0)"] MAX_RETRIES_def defs numeral_2_eq_2)
    with f show ?thesis by (auto simp: MAX_RETRIES_def two lt2 idx defs)
  qed
  then show ?thesis
    unfolding Let_def qs_def [symmetric] c_def by simp
qed

text \<open>
  In \<^verbatim>\<open>fetchReport\<close> the same retry loop surrounds the whole pagination, which goes
  on from the page that failed: a run sleeps 1000 and then 2000 milliseconds at most,
  and an error result comes after both.
\<close>

lemma fetchReport_loop_retries:
  assumes "fetchReport_loop up ps attempt delay s w = Some y"
  shows "delay = 1000 * 2 ^ attempt \<longrightarrow> attempt < MAX_RETRIES \<longrightarrow>
           (\<exists>a'. attempt \<le> a' \<and> a' < MAX_RETRIES
                 \<and> sleeps (snd y) = sleeps w @ map (\<lambda>a. 1000 * 2 ^ a) [attempt..<a']
                 \<and> (isl (fst y) \<longrightarrow> a' = MAX_RETRIES - 1))"
proof (rule fetchReport_loop.raw_induct [where P = "\<lambda>up ps attempt delay s w y.
    delay = 1000 * 2 ^ attempt \<longrightarrow> attempt < MAX_RETRIES \<longrightarrow>
           (\<exists>a'. attempt \<le> a' \<and> a' < MAX_RETRIES
                 \<and> sleeps (snd y) = sleeps w @ map (\<lambda>a. 1000 * 2 ^ a) [attempt..<a']
                 \<and> (isl (fst y) \<longrightarrow> a' = MAX_RETRIES - 1))", OF _ assms], goal_cases)
  case (1 f up ps attempt delay s w y)
  note IH = 1(1) and body = 1(2)
  show ?case
  proof (intro impI)
    assume d: "delay = 1000 * 2 ^ attempt" and a: "attempt < MAX_RETRIES"
    let ?qs = "if truthy_opt (startKey s) then ps\<lparr>start_key := startKey s\<rparr> else ps"
    let ?w1 = "w\<lparr>calls := calls w + 1\<rparr>"
    let ?resp = "case up (calls w) ?qs of
                 Inl e \<Rightarrow> Inl e
               | Inr data \<Rightarrow>
                   (case fetchReport_chunk data of Inl e \<Rightarrow> Inl e | Inr chunk \<Rightarrow> Inr (data, chunk))"
    let ?goal = "\<exists>a'. attempt \<le> a' \<and> a' < MAX_RETRIES
                 \<and> sleeps (snd y) = sleeps w @ map (\<lambda>a. 1000 * 2 ^ a) [attempt..<a']
                 \<and> (isl (fst y) \<longrightarrow> a' = MAX_RETRIES - 1)"
    show ?goal
    proof (cases ?resp)
      case (Inl err)
      show ?thesis
      proof (cases "attempt = MAX_RETRIES - 1")
        case True
        with body a Inl have "y = (Inl err, ?w1)" by (simp add: Let_def)
        with a True show ?thesis by (intro exI [of _ attempt]) simp
      next
        case False
        with body a Inl
        have "f up ps (attempt + 1) (delay * 2) s (?w1\<lparr>sleeps := sleeps ?w1 @ [delay]\<rparr>) = Some y"
          by (simp add: Let_def)
        from IH [OF this] d a False
        obtain a' where a': "attempt + 1 \<le> a'" "a' < MAX_RETRIES"
          "sleeps (snd y) = (sleeps w @ [delay]) @ map (\<lambda>a. 1000 * 2 ^ a) [attempt + 1..<a']"
          "isl (fst y) \<longrightarrow> a' = MAX_RETRIES - 1"
          by (auto simp: MAX_RETRIES_def)
        from a'(1) have "[attempt..<a'] = attempt # [attempt + 1..<a']"
          by (simp add: upt_conv_Cons)
        with a' d show ?thesis by (intro exI [of _ a']) simp
      qed
    next
      case (Inr dc)
      obtain data chunk where dc: "dc = (data, chunk)" by (cases dc)
      show ?thesis
      proof (cases "on_next_start_key (get data ''next_start_key'') (s\<lparr>out := out s @ chunk\<rparr>)")
        case (Break s')
        with body a Inr dc have "y = (Inr s', ?w1)" by (simp add: Let_def)
        with a show ?thesis by (intro exI [of _ attempt]) simp
      next
        case (Continue s')
        with body a Inr dc have "f up ps attempt delay s' ?w1 = Some y" by (simp add: Let_def)
        from IH [OF this] d a show ?thesis by simp
      qed
    qed
  qed
qed

lemma fetchReport_retries:
  assumes "fetchReport up rep ps w = Some (r, w')" and "ENDPOINTS rep \<noteq> None"
  shows "\<exists>n < MAX_RETRIES. sleeps w' = sleeps w @ map (\<lambda>a. 1000 * 2 ^ a) [0..<n]
           \<and> (isl r \<longrightarrow> n = MAX_RETRIES - 1)"
proof -
  from assms have "fetchReport_loop up ps 0 1000 fr_init w = Some (r, w')"
    by (auto simp: fetchReport_def)
  from fetchReport_loop_retries [OF this] show ?thesis
    by (auto simp: MAX_RETRIES_def)
qed

lemma fr_run_invariant:
  "fr_run up ps ws attempt delay s w returned \<Longrightarrow>
     attempt < MAX_RETRIES \<and> delay = 1000 * 2 ^ attempt
     \<and> sleeps w = sleeps ws @ map (\<lambda>a. 1000 * 2 ^ a) [0..<attempt]
     \<and> calls w = calls ws + attempt + length returned
     \<and> seenStartKeys s = returned"
proof (induction rule: fr_run.induct)
  case start
  show ?case by (simp add: MAX_RETRIES_def fr_init_def)
next
  case (retry attempt delay s w returned err)
  then show ?case by (auto simp: MAX_RETRIES_def)
next
  case (page attempt delay s w returned data chunk nxt s')
  from page.hyps(5) have "seenStartKeys s' = seenStartKeys s @ [nxt]"
    by (auto simp: on_next_start_key_def Let_def split: if_splits)
  with page.IH show ?case by simp
qed

lemma fr_run_loop:
  "fr_run up ps ws attempt delay s w returned \<Longrightarrow>
     fetchReport_loop up ps 0 1000 fr_init ws = fetchReport_loop up ps attempt delay s w"
proof (induction rule: fr_run.induct)
  case start
  show ?case by simp
next
  case (retry attempt delay s w returned err)
  from fr_run_invariant [OF retry.hyps(1)] have a: "attempt < MAX_RETRIES" by simp
  have "fetchReport_loop up ps attempt delay s w
          = fetchReport_loop up ps (attempt + 1) (delay * 2) s
              (w\<lparr>calls := calls w + 1, sleeps := sleeps w @ [delay]\<rparr>)"
    using a retry.hyps(2,3)
    apply (subst fetchReport_loop.simps)
    apply (simp add: Let_def request_def)
    done
  with retry.IH show ?case by simp
next
  case (page attempt delay s w returned data chunk nxt s')
  from fr_run_invariant [OF page.hyps(1)] have a: "attempt < MAX_RETRIES" by simp
  have "fetchReport_loop up ps attempt delay s w
          = fetchReport_loop up ps attempt delay s' (w\<lparr>calls := calls w + 1\<rparr>)"
    using a page.hyps(2-5)
    apply (subst fetchReport_loop.simps)
    apply (simp add: Let_def)
    done
  with page.IH show ?case by simp
qed

lemma fetchReport_loop_step:
  assumes "attempt < MAX_RETRIES"
  shows "fetchReport_loop up ps attempt delay s w =
           (case request up ps s w of
              Inl err \<Rightarrow>
                if attempt = MAX_RETRIES - 1 then Some (Inl err, w\<lparr>calls := calls w + 1\<rparr>)
                else fetchReport_loop up ps (attempt + 1) (delay * 2) s
                       (w\<lparr>calls := calls w + 1, sleeps := sleeps w @ [delay]\<rparr>)
            | Inr (data, chunk) \<Rightarrow>
                (case on_next_start_key (get data ''next_start_key'') (s\<lparr>out := out s @ chunk\<rparr>) of
                   Break s' \<Rightarrow> Some (Inr s', w\<lparr>calls := calls w + 1\<rparr>)
                 | Continue s' \<Rightarrow> fetchReport_loop up ps attempt delay s' (w\<lparr>calls := calls w + 1\<rparr>)))"
proof (cases "request up ps s w")
  case (Inl err)
  then have "(case up (calls w) (if truthy_opt (startKey s) then ps\<lparr>start_key := startKey s\<rparr> else ps) of
                Inl e \<Rightarrow> Inl e
              | Inr data \<Rightarrow>
                  (case fetchReport_chunk data of Inl e \<Rightarrow> Inl e | Inr chunk \<Rightarrow> Inr (data, chunk)))
             = Inl err"
    by (simp add: request_def)
  with assms Inl show ?thesis
    by (subst fetchReport_loop.simps) (simp add: Let_def)
next
  case (Inr dc)
  obtain data chunk where dc: "dc = (data, chunk)" by (cases dc)
  from Inr dc
  have "(case up (calls w) (if truthy_opt (startKey s) then ps\<lparr>start_key := startKey s\<rparr> else ps) of
                Inl e \<Rightarrow> Inl e
              | Inr data \<Rightarrow>
                  (case fetchReport_chunk data of Inl e \<Rightarrow> Inl e | Inr chunk \<Rightarrow> Inr (data, chunk)))
             = Inr (data, chunk)"
    by (simp add: request_def)
  with assms Inr dc show ?thesis
    by (subst fetchReport_loop.simps) (simp add: Let_def split: step.splits)
qed

text \<open>
  Claim C6, as the code has it. For a known report kind, \<^verbatim>\<open>fetchReportSinglePage\<close>
  keeps the contract call by call: one to three requests, a sleep of 1000 times 2 to the
  number of the failed attempt before each retry, the error of the third attempt as the
  error result, and no request after a success. In \<^verbatim>\<open>fetchReport\<close> the one retry
  loop surrounds the whole pagination. Whenever a run issues a request, \<^verbatim>\<open>attempt\<close> is
  the number of requests of the run that have failed so far, whatever page they were
  for: it is below 3, the delays slept so far are 1000 times 2 to the 0, ..., \<open>attempt - 1\<close>,
  and the requests issued so far are the failed ones and one for each page received.
  When this request fails (or its body cannot be normalised) the error is the result of
  the run if two requests have failed before; otherwise the run sleeps \<open>1000 * 2 ^ attempt\<close>
  milliseconds and issues the request again, in the same state. When it succeeds, the
  run ends or goes on to the next page with \<^verbatim>\<open>attempt\<close> and \<^verbatim>\<open>delay\<close> as they are.
\<close>

theorem retry_contract:
  "(ENDPOINTS rep \<noteq> None \<and> fetchReportSinglePage up rep ps lim w = (r, w') \<longrightarrow>
      (let qs = (if truthy_num lim then ps\<lparr>limit := lim\<rparr> else ps);
           n = calls w' - calls w
       in 1 \<le> n \<and> n \<le> MAX_RETRIES \<and> calls w' = calls w + n
        \<and> sleeps w' = sleeps w @ map (\<lambda>a. 1000 * 2 ^ a) [0..<n - 1]
        \<and> (\<forall>a < n - 1. isl (page_attempt up qs (calls w + a)))
        \<and> (case r of
              Inl e \<Rightarrow> n = MAX_RETRIES \<and> page_attempt up qs (calls w + n - 1) = Inl e
            | Inr x \<Rightarrow> x \<noteq> None \<and> page_attempt up qs (calls w + n - 1) = Inr (the x))))
   \<and> (ENDPOINTS rep \<noteq> None \<and> fr_run up ps ws attempt delay s v returned \<longrightarrow>
        attempt < MAX_RETRIES \<and> delay = 1000 * 2 ^ attempt
      \<and> sleeps v = sleeps ws @ map (\<lambda>a. 1000 * 2 ^ a) [0..<attempt]
      \<and> calls v = calls ws + attempt + length returned
      \<and> fetchReport up rep ps ws =
          (case request up ps s v of
             Inl err \<Rightarrow>
               if attempt = MAX_RETRIES - 1 then Some (Inl err, v\<lparr>calls := calls v + 1\<rparr>)
               else fetchReport_loop up ps (attempt + 1) (delay * 2) s
                      (v\<lparr>calls := calls v + 1, sleeps := sleeps v @ [delay]\<rparr>)
           | Inr (data, chunk) \<Rightarrow>
               (case on_next_start_key (get data ''next_start_key'') (s\<lparr>out := out s @ chunk\<rparr>) of
                  Break s' \<Rightarrow> Some (Inr s', v\<lparr>calls := calls v + 1\<rparr>)
                | Continue s' \<Rightarrow> fetchReport_loop up ps attempt delay s' (v\<lparr>calls := calls v + 1\<rparr>))))"
proof (intro conjI impI)
  assume "ENDPOINTS rep \<noteq> None \<and> fetchReportSinglePage up rep ps lim w = (r, w')"
  then show "(let qs = (if truthy_num lim then ps\<lparr>limit := lim\<rparr> else ps);
           n = calls w' - calls w
       in 1 \<le> n \<and> n \<le> MAX_RETRIES \<and> calls w' = calls w + n
        \<and> sleeps w' = sleeps w @ map (\<lambda>a. 1000 * 2 ^ a) [0..<n - 1]
        \<and> (\<forall>a < n - 1. isl (page_attempt up qs (calls w + a)))
        \<and> (case r of
              Inl e \<Rightarrow> n = MAX_RETRIES \<and> page_attempt up qs (calls w + n - 1) = Inl e
            | Inr x \<Rightarrow> x \<noteq> None \<and> page_attempt up qs (calls w + n - 1) = Inr (the x)))"
    using singlePage_retries [of rep up ps lim w r w'] by blast
next
  assume h: "ENDPOINTS rep \<noteq> None \<and> fr_run up ps ws attempt delay s v returned"
  then have run: "fr_run up ps ws attempt delay s v returned" and e: "ENDPOINTS rep \<noteq> None"
    by simp_all
  note inv = fr_run_invariant [OF run]
  from inv show "attempt < MAX_RETRIES" by simp
  from inv show "delay = 1000 * 2 ^ attempt" by simp
  from inv show "sleeps v = sleeps ws @ map (\<lambda>a. 1000 * 2 ^ a) [0..<attempt]" by simp
  from inv show "calls v = calls ws + attempt + length returned" by simp
  from inv have a: "attempt < MAX_RETRIES" by simp
  from e have "fetchReport up rep ps ws = fetchReport_loop up ps 0 1000 fr_init ws"
    by (auto simp: fetchReport_def)
  also have "\<dots> = fetchReport_loop up ps attempt delay s v" by (rule fr_run_loop [OF run])
  also note fetchReport_loop_step [OF a]
  finally show "fetchReport up rep ps ws =
          (case request up ps s v of
             Inl err \<Rightarrow>
               if attempt = MAX_RETRIES - 1 then Some (Inl err, v\<lparr>calls := calls v + 1\<rparr>)
               else fetchReport_loop up ps (attempt + 1) (delay * 2) s
                      (v\<lparr>calls := calls v + 1, sleeps := sleeps v @ [delay]\<rparr>)
           | Inr (data, chunk) \<Rightarrow>
               (case on_next_start_key (get data ''next_start_key'') (s\<lparr>out := out s @ chunk\<rparr>) of
                  Break s' \<Rightarrow> Some (Inr s', v\<lparr>calls := calls v + 1\<rparr>)
                | Continue s' \<Rightarrow> fetchReport_loop up ps attempt delay s' (v\<lparr>calls := calls v + 1\<rparr>)))" .
qed

theorem retry_contract_witness:
  "ENDPOINTS Cdrs \<noteq> None
   \<and> fetchReportSinglePage flaky_upstream Cdrs no_params None world0
       = (Inr (Some []), \<lparr>calls = 3, sleeps = [1000, 2000]\<rparr>)
   \<and> page_attempt flaky_upstream no_params 2 = Inr []
   \<and> fr_run flaky_upstream no_params world0 1 2000 fr_init \<lparr>calls = 1, sleeps = [1000]\<rparr> []
   \<and> request flaky_upstream no_params fr_init \<lparr>calls = 1, sleeps = [1000]\<rparr> = Inl (TransportError 1)
   \<and> fetchReport flaky_upstream Cdrs no_params world0
       = fetchReport_loop flaky_upstream no_params 2 4000 fr_init \<lparr>calls = 2, sleeps = [1000, 2000]\<rparr>
   \<and> fetchReport flaky_upstream Cdrs no_params world0
       = Some (Inr fr_init, \<lparr>calls = 3, sleeps = [1000, 2000]\<rparr>)"
proof -
  have h: "ENDPOINTS Cdrs \<noteq> None" by simp
  have g: "fetchReportSinglePage flaky_upstream Cdrs no_params None world0
       = (Inr (Some []), \<lparr>calls = 3, sleeps = [1000, 2000]\<rparr>)"
    by code_simp
  have q0: "request flaky_upstream no_params fr_init world0 = Inl (TransportError 0)"
    by code_simp
  have n0: "(0::nat) \<noteq> MAX_RETRIES - 1" by (simp add: MAX_RETRIES_def)
  have run: "fr_run flaky_upstream no_params world0 1 2000 fr_init \<lparr>calls = 1, sleeps = [1000]\<rparr> []"
    using fr_run.retry [where up = flaky_upstream and ps = no_params and ws = world0
        and w = world0 and s = fr_init and attempt = 0 and delay = 1000 and returned = "[]"
        and err = "TransportError 0", OF fr_run.start q0 n0]
    by (simp add: world0_def)
  have q1: "request flaky_upstream no_params fr_init \<lparr>calls = 1, sleeps = [1000]\<rparr>
              = Inl (TransportError 1)"
    by code_simp
  have res: "fetchReport flaky_upstream Cdrs no_params world0
       = Some (Inr fr_init, \<lparr>calls = 3, sleeps = [1000, 2000]\<rparr>)"
    by code_simp
  note t = retry_contract [where rep = Cdrs and up = flaky_upstream and ps = no_params
      and lim = None and w = world0 and r = "Inr (Some [])"
      and w' = "\<lparr>calls = 3, sleeps = [1000, 2000]\<rparr>" and ws = world0 and attempt = 1
      and delay = 2000 and s = fr_init and v = "\<lparr>calls = 1, sleeps = [1000]\<rparr>"
      and returned = "[]"]
  from t h g have a: "page_attempt flaky_upstream no_params 2 = Inr []"
    by (simp add: world0_def MAX_RETRIES_def)
  from t h run q1
  have b: "fetchReport flaky_upstream Cdrs no_params world0
       = fetchReport_loop flaky_upstream no_params 2 4000 fr_init \<lparr>calls = 2, sleeps = [1000, 2000]\<rparr>"
    by (simp add: MAX_RETRIES_def numeral_2_eq_2)
  from h g a run q1 b res show ?thesis by simp
qed

text \<open>
  Claim C6 as stated fails for \<^verbatim>\<open>fetchReport\<close>: against an upstream whose requests
  fail and succeed in turn the run issues five requests, not three at most, and the
  page that follows the cursor \<open>B\<close> is requested once: its error is the result of the run,
  because the two retries were spent on the pages before it.
\<close>

theorem shared_retry_budget_counterexample:
  "fetchReport budget_upstream Cdrs no_params world0
     = Some (Inl (TransportError 4), \<lparr>calls = 5, sleeps = [1000, 2000]\<rparr>)"
  by code_simp

section \<open>Properties of the cursor pagination\<close>

lemma fr_reach_invariant:
  "fr_reach s \<Longrightarrow>
     consecutiveSameKey s = 0 \<and> (\<forall>k. startKey s = Some k \<longrightarrow> k \<in> set (seenStartKeys s))"
proof (induction rule: fr_reach.induct)
  case init
  show ?case by (simp add: fr_init_def)
next
  case (page s "next" chunk s')
  from page.hyps(2) have t: "truthy_opt next" and nh: "\<not> has (seenStartKeys s) (the next)"
    by (auto simp: on_next_start_key_def Let_def split: if_splits)
  have ns: "\<not> (case startKey s of None \<Rightarrow> False | Some k \<Rightarrow> same_value k (the next))"
  proof (cases "startKey s")
    case None
    then show ?thesis by simp
  next
    case (Some k)
    with page.IH have "k \<in> set (seenStartKeys s)" by simp
    with nh have "\<not> same_value k (the next)" by (auto simp: has_def list_ex_iff)
    with Some show ?thesis by simp
  qed
  from t obtain v where v: "next = Some v" by (cases "next") auto
  from page.hyps(2) t nh ns v show ?case
    by (auto simp: on_next_start_key_def Let_def split: if_splits)
qed

text \<open>
  A page that returns a truthy \<^verbatim>\<open>next_start_key\<close> found in \<^verbatim>\<open>seenStartKeys\<close>
  ends the run: its records are appended and no further request is issued.
\<close>

lemma seen_cursor_breaks:
  assumes "attempt < MAX_RETRIES"
    and "up (calls w) (if truthy_opt (startKey s) then ps\<lparr>start_key := startKey s\<rparr> else ps) = Inr data"
    and "fetchReport_chunk data = Inr chunk"
    and "get data ''next_start_key'' = Some nxt" and "truthy nxt"
    and "has (seenStartKeys s) nxt"
  shows "\<exists>s'. fetchReport_loop up ps attempt delay s w = Some (Inr s', w\<lparr>calls := calls w + 1\<rparr>)
           \<and> out s' = out s @ chunk \<and> seenStartKeys s' = seenStartKeys s
           \<and> startKey s' = startKey s"
  using assms
  apply (subst fetchReport_loop.simps)
  apply (auto simp: on_next_start_key_def Let_def split: option.splits)
  done

text \<open>
  Claim C2. Take any point of a run of \<^verbatim>\<open>fetchReport\<close> at which it issues a request,
  and let \<open>returned\<close> be the cursors that the pages received so far in this run have
  returned. They are what \<^verbatim>\<open>seenStartKeys\<close> holds. If the page now requested returns
  a truthy \<^verbatim>\<open>next_start_key\<close> that is one of them, the run ends with this page: its
  records are appended, the result is returned, and the world shows this one request
  more and no further one.
\<close>

theorem seen_cursor_stops:
  assumes "fr_run up ps ws attempt delay s w returned" and "ENDPOINTS rep \<noteq> None"
    and "up (calls w) (if truthy_opt (startKey s) then ps\<lparr>start_key := startKey s\<rparr> else ps) = Inr data"
    and "fetchReport_chunk data = Inr chunk"
    and "get data ''next_start_key'' = Some nxt" and "truthy nxt"
    and "has returned nxt"
  shows "\<exists>s'. fetchReport up rep ps ws = Some (Inr s', w\<lparr>calls := calls w + 1\<rparr>)
           \<and> out s' = out s @ chunk \<and> seenStartKeys s' = returned
           \<and> startKey s' = startKey s
           \<and> calls w = calls ws + attempt + length returned"
proof -
  from fr_run_invariant [OF assms(1)]
  have a: "attempt < MAX_RETRIES" and sk: "seenStartKeys s = returned"
    and c: "calls w = calls ws + attempt + length returned" by simp_all
  from assms(7) sk have h: "has (seenStartKeys s) nxt" by simp
  from seen_cursor_breaks [where up = up and ps = ps and w = w and s = s and data = data
      and chunk = chunk and nxt = nxt and attempt = attempt and delay = delay,
      OF a assms(3,4,5,6) h]
  obtain s' where s': "fetchReport_loop up ps attempt delay s w = Some (Inr s', w\<lparr>calls := calls w + 1\<rparr>)"
    "out s' = out s @ chunk" "seenStartKeys s' = seenStartKeys s" "startKey s' = startKey s"
    by blast
  from assms(2) fr_run_loop [OF assms(1)] s'(1)
  have "fetchReport up rep ps ws = Some (Inr s', w\<lparr>calls := calls w + 1\<rparr>)"
    by (simp add: fetchReport_def)
  with s' sk c show ?thesis by auto
qed

lemma cycle_run:
  "fr_run cycle_upstream no_params world0 0 1000
     \<lparr>out = [JNum 0, JNum 1], startKey = Some (JStr ''B''),
      seenStartKeys = [JStr ''A'', JStr ''B''], consecutiveSameKey = 0\<rparr>
     \<lparr>calls = 2, sleeps = []\<rparr> [JStr ''A'', JStr ''B'']"
proof -
  let ?s1 = "\<lparr>out = [JNum 0], startKey = Some (JStr ''A''),
      seenStartKeys = [JStr ''A''], consecutiveSameKey = 0\<rparr>"
  let ?s2 = "\<lparr>out = [JNum 0, JNum 1], startKey = Some (JStr ''B''),
      seenStartKeys = [JStr ''A'', JStr ''B''], consecutiveSameKey = 0\<rparr>"
  have u0: "cycle_upstream (calls world0)
              (if truthy_opt (startKey fr_init) then no_params\<lparr>start_key := startKey fr_init\<rparr>
               else no_params) = Inr (cycle_body 0)"
    by (simp add: cycle_upstream_def world0_def)
  have c0: "fetchReport_chunk (cycle_body 0) = Inr [JNum 0]" by code_simp
  have g0: "get (cycle_body 0) ''next_start_key'' = Some (JStr ''A'')" by code_simp
  have n0: "on_next_start_key (Some (JStr ''A'')) (fr_init\<lparr>out := out fr_init @ [JNum 0]\<rparr>)
              = Continue ?s1"
    by code_simp
  have r1: "fr_run cycle_upstream no_params world0 0 1000 ?s1 \<lparr>calls = 1, sleeps = []\<rparr> [JStr ''A'']"
    using fr_run.page [where up = cycle_upstream and ps = no_params and ws = world0
        and w = world0 and s = fr_init and attempt = 0 and delay = 1000 and returned = "[]"
        and data = "cycle_body 0" and chunk = "[JNum 0]" and nxt = "JStr ''A''" and s' = ?s1,
        OF fr_run.start u0 c0 g0 n0]
    by (simp add: world0_def)
  have u1: "cycle_upstream (calls \<lparr>calls = 1, sleeps = []\<rparr>)
              (if truthy_opt (startKey ?s1) then no_params\<lparr>start_key := startKey ?s1\<rparr>
               else no_params) = Inr (cycle_body 1)"
    by (simp add: cycle_upstream_def)
  have c1: "fetchReport_chunk (cycle_body 1) = Inr [JNum 1]" by code_simp
  have g1: "get (cycle_body 1) ''next_start_key'' = Some (JStr ''B'')" by code_simp
  have n1: "on_next_start_key (Some (JStr ''B'')) (?s1\<lparr>out := out ?s1 @ [JNum 1]\<rparr>)
              = Continue ?s2"
    by code_simp
  show ?thesis
    using fr_run.page [where up = cycle_upstream and ps = no_params and ws = world0
        and w = "\<lparr>calls = 1, sleeps = []\<rparr>" and s = ?s1 and attempt = 0 and delay = 1000
        and returned = "[JStr ''A'']"
        and data = "cycle_body 1" and chunk = "[JNum 1]" and nxt = "JStr ''B''" and s' = ?s2,
        OF r1 u1 c1 g1 n1]
    by (simp add: numeral_2_eq_2)
qed

theorem seen_cursor_stops_witness:
  "fr_run cycle_upstream no_params world0 0 1000
     \<lparr>out = [JNum 0, JNum 1], startKey = Some (JStr ''B''),
      seenStartKeys = [JStr ''A'', JStr ''B''], consecutiveSameKey = 0\<rparr>
     \<lparr>calls = 2, sleeps = []\<rparr> [JStr ''A'', JStr ''B'']
   \<and> ENDPOINTS Cdrs \<noteq> None
   \<and> cycle_upstream 2 (no_params\<lparr>start_key := Some (JStr ''B'')\<rparr>) = Inr (cycle_body 2)
   \<and> fetchReport_chunk (cycle_body 2) = Inr [JNum 2]
   \<and> get (cycle_body 2) ''next_start_key'' = Some (JStr ''A'')
   \<and> truthy (JStr ''A'')
   \<and> has [JStr ''A'', JStr ''B''] (JStr ''A'')
   \<and> fetchReport cycle_upstream Cdrs no_params world0
       = Some (Inr \<lparr>out = [JNum 0, JNum 1, JNum 2], startKey = Some (JStr ''B''),
                    seenStartKeys = [JStr ''A'', JStr ''B''], consecutiveSameKey = 0\<rparr>,
               \<lparr>calls = 3, sleeps = []\<rparr>)"
proof -
  let ?s2 = "\<lparr>out = [JNum 0, JNum 1], startKey = Some (JStr ''B''),
      seenStartKeys = [JStr ''A'', JStr ''B''], consecutiveSameKey = 0\<rparr>"
  note r = cycle_run
  have e: "ENDPOINTS Cdrs \<noteq> None" by simp
  have u: "cycle_upstream (calls \<lparr>calls = 2, sleeps = []\<rparr>)
              (if truthy_opt (startKey ?s2) then no_params\<lparr>start_key := startKey ?s2\<rparr>
               else no_params) = Inr (cycle_body 2)"
    by (simp add: cycle_upstream_def)
  have c: "fetchReport_chunk (cycle_body 2) = Inr [JNum 2]" by code_simp
  have g: "get (cycle_body 2) ''next_start_key'' = Some (JStr ''A'')" by code_simp
  have t: "truthy (JStr ''A'')" by simp
  have h: "has [JStr ''A'', JStr ''B''] (JStr ''A'')" by code_simp
  have u': "cycle_upstream 2 (no_params\<lparr>start_key := Some (JStr ''B'')\<rparr>) = Inr (cycle_body 2)"
    by (simp add: cycle_upstream_def)
  from seen_cursor_stops [where up = cycle_upstream and ps = no_params and ws = world0
      and w = "\<lparr>calls = 2, sleeps = []\<rparr>" and s = ?s2 and attempt = 0 and delay = 1000
      and returned = "[JStr ''A'', JStr ''B'']" and rep = Cdrs
      and data = "cycle_body 2" and chunk = "[JNum 2]" and nxt = "JStr ''A''",
      OF r e u c g t h]
  obtain s' where s': "fetchReport cycle_upstream Cdrs no_params world0
        = Some (Inr s', \<lparr>calls = 3, sleeps = []\<rparr>)"
    "out s' = [JNum 0, JNum 1, JNum 2]" "seenStartKeys s' = [JStr ''A'', JStr ''B'']"
    "startKey s' = Some (JStr ''B'')"
    by (auto simp: numeral_3_eq_3 numeral_2_eq_2)
  have "fetchReport cycle_upstream Cdrs no_params world0
       = Some (Inr \<lparr>out = [JNum 0, JNum 1, JNum 2], startKey = Some (JStr ''B''),
                    seenStartKeys = [JStr ''A'', JStr ''B''], consecutiveSameKey = 0\<rparr>,
               \<lparr>calls = 3, sleeps = []\<rparr>)"
    by code_simp
  with r e u' c g t h show ?thesis by simp
qed

text \<open>
  Claim C1, as the code has it. In every state the loop can reach, a page whose
  \<^verbatim>\<open>next_start_key\<close> equals the cursor just used ends the run at once: the guard on
  \<^verbatim>\<open>seenStartKeys\<close> fires on the first such page, with the counter
  \<^verbatim>\<open>consecutiveSameKey\<close> at 1, so the threshold of 3 is never reached.
\<close>

theorem same_cursor_stops_at_once:
  assumes "fr_reach s" and "attempt < MAX_RETRIES"
    and "up (calls w) (if truthy_opt (startKey s) then ps\<lparr>start_key := startKey s\<rparr> else ps) = Inr data"
    and "fetchReport_chunk data = Inr chunk"
    and "get data ''next_start_key'' = Some nxt" and "truthy nxt"
    and "startKey s = Some k" and "same_value k nxt"
  shows "fetchReport_loop up ps attempt delay s w =
           Some (Inr (s\<lparr>out := out s @ chunk, consecutiveSameKey := 1\<rparr>),
                 w\<lparr>calls := calls w + 1\<rparr>)"
proof -
  from fr_reach_invariant [OF assms(1)] assms(7)
  have z: "consecutiveSameKey s = 0" and "k \<in> set (seenStartKeys s)" by auto
  with assms(8) have h: "has (seenStartKeys s) nxt" by (auto simp: has_def list_ex_iff)
  show ?thesis
    using assms(2-8) z h
    apply (subst fetchReport_loop.simps)
    apply (simp add: on_next_start_key_def Let_def)
    done
qed

theorem same_cursor_stops_at_once_witness:
  "fr_reach after_first_page \<and> 0 < MAX_RETRIES
   \<and> stuck_upstream 1 (no_params\<lparr>start_key := Some (JStr ''A'')\<rparr>) = Inr (stuck_body 1)
   \<and> fetchReport_chunk (stuck_body 1) = Inr [JNum 1]
   \<and> get (stuck_body 1) ''next_start_key'' = Some (JStr ''A'')
   \<and> truthy (JStr ''A'')
   \<and> startKey after_first_page = Some (JStr ''A'')
   \<and> same_value (JStr ''A'') (JStr ''A'')
   \<and> fetchReport_loop stuck_upstream no_params 0 1000 after_first_page \<lparr>calls = 1, sleeps = []\<rparr>
       = Some (Inr \<lparr>out = [JNum 0, JNum 1], startKey = Some (JStr ''A''),
                    seenStartKeys = [JStr ''A''], consecutiveSameKey = 1\<rparr>,
               \<lparr>calls = 2, sleeps = []\<rparr>)"
proof -
  have step: "on_next_start_key (Some (JStr ''A'')) (fr_init\<lparr>out := out fr_init @ [JNum 0]\<rparr>)
                = Continue after_first_page"
    by code_simp
  have r: "fr_reach after_first_page" by (rule fr_reach.page [OF fr_reach.init step])
  have a: "0 < MAX_RETRIES" by (simp add: MAX_RETRIES_def)
  have b: "stuck_upstream (calls \<lparr>calls = 1, sleeps = []\<rparr>)
             (if truthy_opt (startKey after_first_page)
              then no_params\<lparr>start_key := startKey after_first_page\<rparr> else no_params)
           = Inr (stuck_body 1)"
    by (simp add: stuck_upstream_def)
  have c: "fetchReport_chunk (stuck_body 1) = Inr [JNum 1]" by code_simp
  have d: "get (stuck_body 1) ''next_start_key'' = Some (JStr ''A'')" by code_simp
  have e: "truthy (JStr ''A'')" by simp
  have f: "startKey after_first_page = Some (JStr ''A'')" by (simp add: after_first_page_def)
  have g: "same_value (JStr ''A'') (JStr ''A'')" by simp
  from same_cursor_stops_at_once [where attempt = 0 and up = stuck_upstream and ps = no_params
      and w = "\<lparr>calls = 1, sleeps = []\<rparr>" and s = after_first_page and delay = 1000
      and data = "stuck_body 1" and chunk = "[JNum 1]" and nxt = "JStr ''A''"
      and k = "JStr ''A''", OF r a b c d e f g]
    r a c d e f g
  show ?thesis
    by (auto simp: stuck_upstream_def after_first_page_def numeral_2_eq_2)
qed

text \<open>
  Claim C1 as stated fails: against an upstream that returns the cursor \<open>A\<close> on every
  page the run issues two requests in all. Only the second carries the cursor \<open>A\<close>, so
  one page, not three, returns the cursor just used before the run ends.
\<close>

theorem same_cursor_three_pages_counterexample:
  "fetchReport stuck_upstream Cdrs no_params world0
     = Some (Inr \<lparr>out = [JNum 0, JNum 1], startKey = Some (JStr ''A''),
                  seenStartKeys = [JStr ''A''], consecutiveSameKey = 1\<rparr>,
             \<lparr>calls = 2, sleeps = []\<rparr>)"
  by code_simp

section \<open>Properties of the time slices\<close>

lemma chunk_loop_stuck:
  assumes "chunk_loop a b d cs = Some y"
  shows "\<not> (d = 0 \<and> a < b)"
  by (rule chunk_loop.raw_induct [where P = "\<lambda>a b d cs y. \<not> (d = 0 \<and> a < b)", OF _ assms])
     (auto split: if_splits)

text \<open>
  Claim C7 at a window of two seconds: \<^verbatim>\<open>chunkDuration\<close> is
  \<^verbatim>\<open>Math.floor(2 / 4) = 0\<close>, \<^verbatim>\<open>chunkStart\<close> never advances, and the loop that builds
  the chunks never ends, so no sub-window is produced at all.
\<close>

theorem short_window_never_sliced: "time_chunks 1000 1002 = None"
proof (cases "time_chunks 1000 1002")
  case None
  then show ?thesis .
next
  case (Some y)
  then have "chunk_loop 1000 1002 0 [] = Some y"
    by (simp add: time_chunks_def chunkDuration_of_def)
  from chunk_loop_stuck [OF this] show ?thesis by simp
qed

text \<open>The same holds of every window of one to three seconds, and of the aggregator that
  falls back to time slices on such a window.\<close>

lemma time_chunks_short_window:
  assumes "startTime < endTime" and "endTime - startTime < 4"
  shows "time_chunks startTime endTime = None"
proof (cases "time_chunks startTime endTime")
  case None
  then show ?thesis .
next
  case (Some y)
  moreover have "chunkDuration_of startTime endTime = 0"
    using assms by (simp add: chunkDuration_of_def)
  ultimately have "chunk_loop startTime endTime 0 [] = Some y"
    by (simp add: time_chunks_def)
  from chunk_loop_stuck [OF this] assms show ?thesis by simp
qed

lemma multiPage_finish_short_window:
  assumes "slicing_wanted ps totalLimit st"
    and "startDate ps = Some startTime" and "endDate ps = Some endTime"
    and "startTime < endTime" and "endTime - startTime < 4"
  shows "multiPage_finish up rep ps totalLimit st w = None"
  using assms time_chunks_short_window [OF assms(4,5)]
  by (simp add: multiPage_finish_def fetchWithTimeSlicing_def)

text \<open>
  From four seconds on the chunks are a partition of the window into at least four
  chunks of at most four hours each.
\<close>

lemma chunk_loop_covers:
  assumes "0 < d"
  shows "\<exists>ys. chunk_loop a b d cs = Some (cs @ ys) \<and> covers a b ys
              \<and> (\<forall>c \<in> set ys. snd c - fst c \<le> d)"
proof (induction "nat (b - a)" arbitrary: a cs rule: less_induct)
  case less
  show ?case
  proof (cases "a < b")
    case False
    then show ?thesis by (subst chunk_loop.simps) simp
  next
    case True
    show ?thesis
    proof (cases "a + d \<le> b")
      case True
      have "nat (b - (a + d)) < nat (b - a)" using assms \<open>a < b\<close> by simp
      from less [OF this, of "cs @ [(a, min (a + d) b)]"]
      obtain ys where ys: "chunk_loop (a + d) b d (cs @ [(a, min (a + d) b)])
                             = Some ((cs @ [(a, min (a + d) b)]) @ ys)"
        "covers (a + d) b ys" "\<forall>c \<in> set ys. snd c - fst c \<le> d" by blast
      have "chunk_loop a b d cs = Some (cs @ ((a, a + d) # ys))"
        using ys(1) \<open>a < b\<close> True by (subst chunk_loop.simps) (simp add: min_def)
      moreover have "covers a b ((a, a + d) # ys)" using ys(2) True assms by simp
      moreover have "\<forall>c \<in> set ((a, a + d) # ys). snd c - fst c \<le> d" using ys(3) by simp
      ultimately show ?thesis by blast
    next
      case False
      have "chunk_loop (a + d) b d (cs @ [(a, b)]) = Some (cs @ [(a, b)])"
        using False by (subst chunk_loop.simps) simp
      then have "chunk_loop a b d cs = Some (cs @ [(a, b)])"
        using \<open>a < b\<close> False by (subst chunk_loop.simps) (simp add: min_def)
      moreover have "covers a b [(a, b)]" using \<open>a < b\<close> by simp
      moreover have "\<forall>c \<in> set [(a, b)]. snd c - fst c \<le> d" using False by simp
      ultimately show ?thesis by blast
    qed
  qed
qed

lemma covers_length:
  "covers a b cs \<Longrightarrow> a \<le> b \<Longrightarrow> \<forall>c \<in> set cs. snd c - fst c \<le> d \<Longrightarrow> 0 \<le> d
     \<Longrightarrow> b - a \<le> int (length cs) * d"
proof (induction cs arbitrary: a)
  case Nil
  then show ?case by simp
next
  case (Cons c cs)
  then have "b - snd c \<le> int (length cs) * d" by simp
  moreover have "snd c - a \<le> d" using Cons.prems by simp
  ultimately show ?case by (simp add: algebra_simps)
qed

lemma time_chunks_partition:
  assumes "4 \<le> e - s"
  shows "\<exists>cs. time_chunks s e = Some cs \<and> covers s e cs
            \<and> (\<forall>c \<in> set cs. snd c - fst c \<le> 14400) \<and> 4 \<le> length cs"
proof -
  define d where "d = chunkDuration_of s e"
  have d: "0 < d" "d \<le> 14400" "4 * d \<le> e - s"
    using assms by (auto simp: d_def chunkDuration_of_def min_def)
  from chunk_loop_covers [OF d(1), of s e "[]"]
  obtain cs where cs: "time_chunks s e = Some cs" "covers s e cs"
    "\<forall>c \<in> set cs. snd c - fst c \<le> d"
    by (auto simp: time_chunks_def d_def)
  from covers_length [OF cs(2) _ cs(3)] assms d have "e - s \<le> int (length cs) * d" by simp
  with d(3) have "4 * d \<le> int (length cs) * d" by simp
  with d(1) have "4 \<le> int (length cs)" by simp
  with cs d(2) show ?thesis by fastforce
qed

lemma time_chunks_sixteen_hours:
  "time_chunks 0 57600 = Some [(0, 14400), (14400, 28800), (28800, 43200), (43200, 57600)]"
  by code_simp

section \<open>The size of the result\<close>

text \<open>
  Claim C3 on the single-page path. A request with \<^verbatim>\<open>limit=1\<close> goes through
  \<^verbatim>\<open>fetchReportSinglePageEnhanced\<close>, which passes the limit to the upstream and
  returns what comes back: with an upstream that sends two records the caller gets two.
\<close>

theorem single_page_exceeds_limit:
  "reports_route two_record_upstream Cdrs no_params (Some ''1'') world0
     = Some (Status200 [JObj [(''call_id'', JStr ''a'')], JObj [(''call_id'', JStr ''b'')]],
             \<lparr>calls = 1, sleeps = []\<rparr>)"
  by code_simp

text \<open>The multi-page path does keep to the limit, by its final \<^verbatim>\<open>slice\<close>.\<close>

lemma length_slice0: "0 \<le> n \<Longrightarrow> int (length (slice0 xs n)) \<le> n"
  by (simp add: slice0_def)

lemma multi_page_within_limit:
  assumes "fetchReportMultiPage up rep ps totalLimit w = Some (Inr data, w')" and "0 \<le> totalLimit"
  shows "int (length data) \<le> totalLimit"
  using assms length_slice0 [OF assms(2)]
  by (auto simp: fetchReportMultiPage_def multiPage_finish_def
           split: prod.splits sum.splits if_splits option.splits)

section \<open>Termination\<close>

lemma fresh_chunk: "fetchReport_chunk (fresh_body n) = Inr []"
  by (simp add: fetchReport_chunk_def fresh_body_def read_prop_def own_props_def)

lemma fresh_next: "get (fresh_body n) ''next_start_key'' = Some (fresh_key n)"
  by (simp add: fresh_body_def own_props_def)

lemma older_not_same: "older n k \<Longrightarrow> \<not> same_value k (fresh_key n)"
  by (auto simp: older_def fresh_key_def dest!: arg_cong [where f = length])

lemma fresh_continue:
  assumes "\<forall>k \<in> set (seenStartKeys s). older n k" and "\<forall>k. startKey s = Some k \<longrightarrow> older n k"
  shows "on_next_start_key (Some (fresh_key n)) s
           = Continue (s\<lparr>consecutiveSameKey := 0,
                seenStartKeys := seenStartKeys s @ [fresh_key n], startKey := Some (fresh_key n)\<rparr>)"
proof -
  have "\<not> has (seenStartKeys s) (fresh_key n)"
    using assms(1) older_not_same by (auto simp: has_def list_ex_iff)
  moreover have "\<not> (case startKey s of None \<Rightarrow> False | Some k \<Rightarrow> same_value k (fresh_key n))"
    using assms(2) older_not_same by (auto split: option.splits)
  moreover have "truthy (fresh_key n)" by (simp add: fresh_key_def)
  ultimately show ?thesis
    by (auto simp: on_next_start_key_def Let_def split: option.splits)
qed

lemma fresh_never_returns:
  assumes "fetchReport_loop up ps attempt delay s w = Some y"
  shows "\<not> (up = fresh_upstream \<and> attempt < MAX_RETRIES
            \<and> (\<forall>k \<in> set (seenStartKeys s). older (calls w) k)
            \<and> (\<forall>k. startKey s = Some k \<longrightarrow> older (calls w) k))"
proof (rule fetchReport_loop.raw_induct [where P = "\<lambda>up ps attempt delay s w y.
    \<not> (up = fresh_upstream \<and> attempt < MAX_RETRIES
            \<and> (\<forall>k \<in> set (seenStartKeys s). older (calls w) k)
            \<and> (\<forall>k. startKey s = Some k \<longrightarrow> older (calls w) k))", OF _ assms],
    goal_cases)
  case (1 f up ps attempt delay s w y)
  note IH = 1(1) and body = 1(2)
  show ?case
  proof
    assume a: "up = fresh_upstream \<and> attempt < MAX_RETRIES
            \<and> (\<forall>k \<in> set (seenStartKeys s). older (calls w) k)
            \<and> (\<forall>k. startKey s = Some k \<longrightarrow> older (calls w) k)"
    let ?s0 = "s\<lparr>out := out s @ []\<rparr>"
    let ?s' = "?s0\<lparr>consecutiveSameKey := 0,
                seenStartKeys := seenStartKeys ?s0 @ [fresh_key (calls w)],
                startKey := Some (fresh_key (calls w))\<rparr>"
    have c: "on_next_start_key (Some (fresh_key (calls w))) ?s0 = Continue ?s'"
      using a by (intro fresh_continue) auto
    from body a c have "f up ps attempt delay ?s' (w\<lparr>calls := calls w + 1\<rparr>) = Some y"
      by (simp add: fresh_upstream_def fresh_chunk fresh_next Let_def)
    from IH [OF this] a show False
      by (auto simp: older_def less_Suc_eq)
  qed
qed

text \<open>
  Claim C8 as stated fails for \<^verbatim>\<open>fetchReport\<close>: against an upstream whose cursor is new
  on every page neither guard ever fires and the cursor is never absent, so the run
  never returns.
\<close>

theorem fresh_cursors_never_end_counterexample:
  "fetchReport fresh_upstream Cdrs no_params world0 = None"
proof (cases "fetchReport fresh_upstream Cdrs no_params world0")
  case None
  then show ?thesis .
next
  case (Some y)
  then have "fetchReport_loop fresh_upstream no_params 0 1000 fr_init world0 = Some y"
    by (simp add: fetchReport_def)
  from fresh_never_returns [OF this] show ?thesis
    by (simp add: MAX_RETRIES_def fr_init_def)
qed


lemma fetchReport_loop_returns:
  assumes K: "finite K" "\<forall>k \<in> K. same_value k k"
    and up: "\<forall>n q data k. up n q = Inr data \<and> get data ''next_start_key'' = Some k \<and> truthy k
               \<longrightarrow> k \<in> K"
  shows "\<exists>r. fetchReport_loop up ps attempt delay s w = Some r"
proof (induction "card (K - set (seenStartKeys s)) + (MAX_RETRIES - attempt)"
         arbitrary: attempt delay s w rule: less_induct)
  case less
  let ?qs = "if truthy_opt (startKey s) then ps\<lparr>start_key := startKey s\<rparr> else ps"
  let ?w1 = "w\<lparr>calls := calls w + 1\<rparr>"
  let ?resp = "case up (calls w) ?qs of
                 Inl e \<Rightarrow> Inl e
               | Inr data \<Rightarrow>
                   (case fetchReport_chunk data of Inl e \<Rightarrow> Inl e | Inr chunk \<Rightarrow> Inr (data, chunk))"
  show ?case
  proof (cases "attempt < MAX_RETRIES")
    case False
    then show ?thesis by (subst fetchReport_loop.simps) simp
  next
    case True
    show ?thesis
    proof (cases ?resp)
      case (Inl err)
      show ?thesis
      proof (cases "attempt = MAX_RETRIES - 1")
        case True
        with Inl \<open>attempt < MAX_RETRIES\<close> show ?thesis
          by (subst fetchReport_loop.simps) (simp add: Let_def)
      next
        case False
        have "card (K - set (seenStartKeys s)) + (MAX_RETRIES - (attempt + 1))
                < card (K - set (seenStartKeys s)) + (MAX_RETRIES - attempt)"
          using \<open>attempt < MAX_RETRIES\<close> by simp
        from less [OF this, of "delay * 2" "?w1\<lparr>sleeps := sleeps ?w1 @ [delay]\<rparr>"]
        obtain r where "fetchReport_loop up ps (attempt + 1) (delay * 2) s
                          (?w1\<lparr>sleeps := sleeps ?w1 @ [delay]\<rparr>) = Some r" by blast
        with Inl False \<open>attempt < MAX_RETRIES\<close> show ?thesis
          by (subst fetchReport_loop.simps) (simp add: Let_def)
      qed
    next
      case (Inr dc)
      obtain data chunk where dc: "dc = (data, chunk)" by (cases dc)
      from Inr dc have resp: "up (calls w) ?qs = Inr data"
        by (auto split: sum.splits)
      let ?s0 = "s\<lparr>out := out s @ chunk\<rparr>"
      show ?thesis
      proof (cases "on_next_start_key (get data ''next_start_key'') ?s0")
        case (Break s')
        with Inr dc \<open>attempt < MAX_RETRIES\<close> show ?thesis
          by (subst fetchReport_loop.simps) (simp add: Let_def)
      next
        case (Continue s')
        then obtain k where k: "get data ''next_start_key'' = Some k" "truthy k"
          "\<not> has (seenStartKeys s) k" "seenStartKeys s' = seenStartKeys s @ [k]"
          by (cases "get data ''next_start_key''")
             (auto simp: on_next_start_key_def Let_def split: if_splits)
        from up resp k(1,2) have "k \<in> K" by blast
        moreover from this K(2) k(3) have "k \<notin> set (seenStartKeys s)"
          by (auto simp: has_def list_ex_iff)
        ultimately have "card (K - set (seenStartKeys s')) < card (K - set (seenStartKeys s))"
          using K(1) k(4) by (intro psubset_card_mono) auto
        then have "card (K - set (seenStartKeys s')) + (MAX_RETRIES - attempt)
                     < card (K - set (seenStartKeys s)) + (MAX_RETRIES - attempt)" by simp
        from less [OF this, of delay ?w1]
        obtain r where "fetchReport_loop up ps attempt delay s' ?w1 = Some r" by blast
        with Inr dc Continue \<open>attempt < MAX_RETRIES\<close> show ?thesis
          by (subst fetchReport_loop.simps) (simp add: Let_def)
      qed
    qed
  qed
qed

lemma singlePage_calls:
  assumes "fetchReportSinglePage up rep ps lim w = (r, w')"
  shows "calls w \<le> calls w' \<and> calls w' \<le> calls w + MAX_RETRIES"
proof -
  have "calls w \<le> calls (snd (singlePage_loop up qs a d w))
        \<and> calls (snd (singlePage_loop up qs a d w)) \<le> calls w + (MAX_RETRIES - a)" for qs a d
  proof (induction up qs a d w rule: singlePage_loop.induct)
    case (1 up qs attempt delay w)
    show ?case
    proof (cases "attempt < MAX_RETRIES")
      case False
      then show ?thesis by (subst (1 2) singlePage_loop.simps) simp
    next
      case True
      show ?thesis
      proof (cases "page_attempt up qs (calls w)")
        case (Inr rs)
        with True show ?thesis by (subst (1 2) singlePage_loop.simps) (simp add: Let_def)
      next
        case (Inl e)
        show ?thesis
        proof (cases "attempt = MAX_RETRIES - 1")
          case True
          with Inl \<open>attempt < MAX_RETRIES\<close> show ?thesis
            by (subst (1 2) singlePage_loop.simps) (simp add: Let_def)
        next
          case False
          from "1.IH" [OF True refl Inl False] Inl False True show ?thesis
            apply (subst (1 2) singlePage_loop.simps)
            apply (simp add: Let_def)
            apply arith
            done
        qed
      qed
    qed
  qed
  from this [of "if truthy_num lim then ps\<lparr>limit := lim\<rparr> else ps" 0 1000] assms
  show ?thesis
    by (auto simp: fetchReportSinglePage_def split: if_splits)
qed


lemma multiPage_body_calls:
  assumes "multiPage_body up rep ps totalLimit s w = (r, w')"
  shows "calls w' \<le> calls w + MAX_RETRIES"
proof -
  let ?pp = "ps\<lparr>limit := Some (min pageSize (totalLimit - int (length (allRecords s)))),
                 offset := Some (currentOffset s)\<rparr>"
  obtain r1 w1 where f: "fetchReportSinglePage up rep ?pp (limit ?pp) w = (r1, w1)"
    by (cases "fetchReportSinglePage up rep ?pp (limit ?pp) w")
  from singlePage_calls [OF f] have "calls w1 \<le> calls w + MAX_RETRIES" by simp
  moreover from assms f have "calls w' = calls w1"
    by (auto simp: multiPage_body_def Let_def
             split: prod.splits sum.splits option.splits if_splits)
  ultimately show ?thesis by simp
qed

lemma multiPage_body_pageCount:
  "multiPage_body up rep ps totalLimit s w = (Next s', w') \<Longrightarrow> pageCount s' = pageCount s + 1"
  by (auto simp: multiPage_body_def Let_def
           split: prod.splits sum.splits option.splits if_splits)

lemma multiPage_loop_calls:
  "calls (snd (multiPage_loop up rep ps totalLimit s w))
     \<le> calls w + MAX_RETRIES * (5 - pageCount s)"
proof (induction up rep ps totalLimit s w rule: multiPage_loop.induct)
  case (1 up rep ps totalLimit s w)
  let ?guard = "int (length (allRecords s)) < totalLimit \<and> hasMoreData s \<and> pageCount s < 5"
  show ?case
  proof (cases ?guard)
    case False
    then show ?thesis by (subst multiPage_loop.simps) auto
  next
    case True
    obtain r w1 where b: "multiPage_body up rep ps totalLimit s w = (r, w1)"
      by (cases "multiPage_body up rep ps totalLimit s w")
    from multiPage_body_calls [OF b] have c1: "calls w1 \<le> calls w + MAX_RETRIES" .
    have budget: "calls w + MAX_RETRIES + MAX_RETRIES * (5 - (pageCount s + 1))
                    \<le> calls w + MAX_RETRIES * (5 - pageCount s)"
      using True by (cases "5 - pageCount s") (auto simp: Suc_diff_Suc)
    show ?thesis
    proof (cases r)
      case (Thrown e)
      with True b c1 budget show ?thesis by (subst multiPage_loop.simps) simp
    next
      case (Broken s')
      with True b c1 budget show ?thesis by (subst multiPage_loop.simps) simp
    next
      case (Next s')
      with b have pc: "pageCount s' = pageCount s + 1" by (simp add: multiPage_body_pageCount)
      from "1.IH" [OF True b [unfolded Next, symmetric] refl]
      have "calls (snd (multiPage_loop up rep ps totalLimit s' w1))
              \<le> calls w1 + MAX_RETRIES * (5 - pageCount s')" .
      with True b Next c1 budget pc show ?thesis by (subst multiPage_loop.simps) simp
    qed
  qed
qed

text \<open>
  Claim C8, as the code has it. The cursor pagination of \<^verbatim>\<open>fetchReport\<close> returns
  whenever the truthy cursors of the upstream are primitive values of a finite set (so
  that a repeated cursor is recognised). The offset loop of the multi-page aggregator
  returns for every upstream, after at most five pages of at most three requests each.
\<close>

theorem aggregation_terminates:
  "(finite K \<and> (\<forall>k \<in> K. same_value k k)
      \<and> (\<forall>n q data k. up n q = Inr data \<and> get data ''next_start_key'' = Some k \<and> truthy k
             \<longrightarrow> k \<in> K)
      \<longrightarrow> (\<exists>r. fetchReport up rep ps w = Some r))
   \<and> (\<exists>r w'. multiPage_loop up rep ps totalLimit mp_init w = (r, w')
              \<and> calls w' \<le> calls w + 5 * MAX_RETRIES)"
proof (intro conjI impI)
  assume "finite K \<and> (\<forall>k \<in> K. same_value k k)
      \<and> (\<forall>n q data k. up n q = Inr data \<and> get data ''next_start_key'' = Some k \<and> truthy k
             \<longrightarrow> k \<in> K)"
  then have "\<exists>r. fetchReport_loop up ps 0 1000 fr_init w = Some r"
    by (intro fetchReport_loop_returns [of K]) auto
  then show "\<exists>r. fetchReport up rep ps w = Some r"
    by (simp add: fetchReport_def)
next
  from multiPage_loop_calls [of up rep ps totalLimit mp_init w]
  have "calls (snd (multiPage_loop up rep ps totalLimit mp_init w)) \<le> calls w + 5 * MAX_RETRIES"
    by (simp add: mp_init_def)
  then show "\<exists>r w'. multiPage_loop up rep ps totalLimit mp_init w = (r, w')
              \<and> calls w' \<le> calls w + 5 * MAX_RETRIES"
    by (cases "multiPage_loop up rep ps totalLimit mp_init w") auto
qed

theorem aggregation_terminates_witness:
  "finite {JStr ''A''} \<and> same_value (JStr ''A'') (JStr ''A'')
   \<and> (\<exists>r. fetchReport stuck_upstream Cdrs no_params world0 = Some r)"
proof -
  have a: "finite {JStr ''A''} \<and> (\<forall>k \<in> {JStr ''A''}. same_value k k)
   \<and> (\<forall>n q data k. stuck_upstream n q = Inr data \<and> get data ''next_start_key'' = Some k \<and> truthy k
          \<longrightarrow> k \<in> {JStr ''A''})"
    by (auto simp: stuck_upstream_def stuck_body_def own_props_def)
  from aggregation_terminates [of "{JStr ''A''}" stuck_upstream Cdrs no_params world0] a
  show ?thesis by auto
qed

section \<open>Deduplication in the multi-page aggregator\<close>

lemma same_value_sym: "same_value a b \<Longrightarrow> same_value b a"
  by (cases a; cases b) auto

lemma same_value_trans: "same_value a b \<Longrightarrow> same_value b c \<Longrightarrow> same_value a c"
  by (cases a; cases b; cases c) auto

lemma has_append: "has (seen @ [k]) y \<longleftrightarrow> has seen y \<or> same_value k y"
  by (auto simp: has_def list_ex_iff)







lemma upt_Suc_shift: "[0..<Suc n] = 0 # map Suc [0..<n]"
  by (simp add: upt_conv_Cons map_Suc_upt del: upt_Suc)

lemma first_copies_Cons:
  "first_copies seen (r # rs) =
     (if has seen (record_key r) then first_copies seen rs
      else r # first_copies (seen @ [record_key r]) rs)"
proof -
  let ?k = "record_key r"
  let ?c = "\<lambda>sn xs i. \<not> has sn (record_key (xs ! i))
                  \<and> list_all (\<lambda>j. \<not> same_value (record_key (xs ! j)) (record_key (xs ! i))) [0..<i]"
  have shift: "?c seen (r # rs) (Suc i) \<longleftrightarrow>
                 \<not> has seen (record_key (rs ! i)) \<and> \<not> same_value ?k (record_key (rs ! i))
                 \<and> list_all (\<lambda>j. \<not> same_value (record_key (rs ! j)) (record_key (rs ! i))) [0..<i]"
    for i
    by (simp add: upt_Suc_shift list.pred_map comp_def del: upt_Suc)
  have fc: "first_copies seen (r # rs) =
              (if ?c seen (r # rs) 0 then [r] else [])
              @ map (\<lambda>i. rs ! i) (filter (\<lambda>i. ?c seen (r # rs) (Suc i)) [0..<length rs])"
    unfolding first_copies_def
    by (simp add: upt_Suc_shift filter_map comp_def del: upt_Suc)
  show ?thesis
  proof (cases "has seen ?k")
    case True
    have "?c seen (r # rs) (Suc i) \<longleftrightarrow> ?c seen rs i" for i
    proof -
      have "\<not> same_value ?k (record_key (rs ! i))" if "\<not> has seen (record_key (rs ! i))"
      proof
        assume sv: "same_value ?k (record_key (rs ! i))"
        from True obtain x where "x \<in> set seen" "same_value x ?k"
          by (auto simp: has_def list_ex_iff)
        with sv have "has seen (record_key (rs ! i))"
          by (auto simp: has_def list_ex_iff intro: same_value_trans)
        with that show False by simp
      qed
      then show ?thesis unfolding shift by blast
    qed
    with True fc show ?thesis by (simp add: first_copies_def)
  next
    case False
    have "?c seen (r # rs) (Suc i) \<longleftrightarrow> ?c (seen @ [?k]) rs i" for i
      unfolding shift by (simp add: has_append)
    with False fc show ?thesis by (simp add: first_copies_def)
  qed
qed

lemma dedup_first_copies:
  "dedup_records rs (a, seen) n = (None, (a', seen'), n') \<Longrightarrow> a' = a @ first_copies seen rs"
proof (induction rs arbitrary: a seen n)
  case Nil
  then show ?case by (simp add: first_copies_def)
next
  case (Cons r rs)
  show ?case
  proof (cases "recordId r")
    case (Inl e)
    with Cons.prems show ?thesis by simp
  next
    case (Inr rid)
    then have k: "record_key r = rid" by (simp add: record_key_def)
    show ?thesis
    proof (cases "has seen rid")
      case True
      with Cons.prems Inr have "dedup_records rs (a, seen) n = (None, (a', seen'), n')" by simp
      from Cons.IH [OF this] True k show ?thesis by (simp add: first_copies_Cons)
    next
      case False
      with Cons.prems Inr
      have "dedup_records rs (a @ [r], seen @ [rid]) (n + 1) = (None, (a', seen'), n')" by simp
      from Cons.IH [OF this] False k show ?thesis by (simp add: first_copies_Cons)
    qed
  qed
qed


text \<open>Within one page: of the two copies of the call \<open>a\<close> the first is kept.\<close>

lemma duplicate_page_result:
  "fetchReportMultiPage duplicate_upstream Cdrs no_params 1000 world0
     = Some (Inr [first_a, only_b], \<lparr>calls = 1, sleeps = []\<rparr>)"
  by code_simp

section \<open>Failures of a page in the multi-page aggregator\<close>

lemma mp_reach_loop:
  "mp_reach up rep ps totalLimit w0 s w \<Longrightarrow>
     multiPage_loop up rep ps totalLimit mp_init w0 = multiPage_loop up rep ps totalLimit s w"
proof (induction rule: mp_reach.induct)
  case start
  show ?case by simp
next
  case (iter s w s' w')
  have "multiPage_loop up rep ps totalLimit s w = multiPage_loop up rep ps totalLimit s' w'"
    using iter.hyps(2-5) by (subst multiPage_loop.simps) simp
  with iter.IH show ?case by simp
qed

lemma multiPage_body_failure:
  assumes "fetchReportSinglePage up rep
             (ps\<lparr>limit := Some (min pageSize (totalLimit - int (length (allRecords s)))),
                 offset := Some (currentOffset s)\<rparr>)
             (Some (min pageSize (totalLimit - int (length (allRecords s))))) w = (Inl e, w1)"
  shows "multiPage_body up rep ps totalLimit s w =
           (if pageCount s = 0 then Thrown e
            else Next (s\<lparr>pageCount := pageCount s + 1, hasMoreData := False\<rparr>), w1)"
  using assms by (simp add: multiPage_body_def Let_def)

lemma slice0_all: "int (length xs) \<le> n \<Longrightarrow> slice0 xs n = xs"
  by (simp add: slice0_def)

lemma slice0_append: "int (length xs) \<le> n \<Longrightarrow> \<exists>rest. slice0 (xs @ ys) n = xs @ rest"
  by (auto simp: slice0_def)

text \<open>
  Claim C10, as the code has it. When the fetch of a page fails (its retries used up):
  on the first page the error is thrown to the caller; on a later page the offset
  loop stops with the accumulated records untouched, and the call ends as
  \<open>multiPage_finish\<close> ends it from there. The accumulated records are the result when
  the condition for time slices does not hold, and in any case the beginning of it.
\<close>

theorem page_failures:
  assumes "mp_reach up rep ps totalLimit w0 s w"
    and "int (length (allRecords s)) < totalLimit" and "hasMoreData s" and "pageCount s < 5"
    and "fetchReportSinglePage up rep
             (ps\<lparr>limit := Some (min pageSize (totalLimit - int (length (allRecords s)))),
                 offset := Some (currentOffset s)\<rparr>)
             (Some (min pageSize (totalLimit - int (length (allRecords s))))) w = (Inl e, w1)"
  shows "(pageCount s = 0 \<longrightarrow> fetchReportMultiPage up rep ps totalLimit w0 = Some (Inl e, w1))
       \<and> (0 < pageCount s \<longrightarrow>
            fetchReportMultiPage up rep ps totalLimit w0
              = multiPage_finish up rep ps totalLimit
                  (s\<lparr>pageCount := pageCount s + 1, hasMoreData := False\<rparr>) w1
          \<and> (\<not> slicing_wanted ps totalLimit (s\<lparr>pageCount := pageCount s + 1, hasMoreData := False\<rparr>)
                \<longrightarrow> fetchReportMultiPage up rep ps totalLimit w0 = Some (Inr (allRecords s), w1))
          \<and> (\<forall>data w2. fetchReportMultiPage up rep ps totalLimit w0 = Some (Inr data, w2)
                \<longrightarrow> (\<exists>rest. data = allRecords s @ rest)))"
proof -
  let ?s' = "s\<lparr>pageCount := pageCount s + 1, hasMoreData := False\<rparr>"
  note body = multiPage_body_failure [OF assms(5)]
  note loop = mp_reach_loop [OF assms(1)]
  have first: "fetchReportMultiPage up rep ps totalLimit w0 = Some (Inl e, w1)" if "pageCount s = 0"
  proof -
    from that body assms(2-4) have "multiPage_loop up rep ps totalLimit s w = (Inl e, w1)"
      by (subst multiPage_loop.simps) simp
    with loop show ?thesis by (simp add: fetchReportMultiPage_def)
  qed
  have later: "fetchReportMultiPage up rep ps totalLimit w0
                 = multiPage_finish up rep ps totalLimit ?s' w1" if "0 < pageCount s"
  proof -
    have "multiPage_loop up rep ps totalLimit ?s' w1 = (Inr ?s', w1)"
      by (subst multiPage_loop.simps) simp
    with that body assms(2-4) have "multiPage_loop up rep ps totalLimit s w = (Inr ?s', w1)"
      by (subst multiPage_loop.simps) simp
    with loop show ?thesis by (simp add: fetchReportMultiPage_def)
  qed
  have len: "int (length (allRecords s)) \<le> totalLimit" using assms(2) by simp
  have plain: "multiPage_finish up rep ps totalLimit ?s' w1 = Some (Inr (allRecords s), w1)"
    if "\<not> slicing_wanted ps totalLimit ?s'"
    using that len by (simp add: multiPage_finish_def slice0_all)
  have pre: "\<exists>rest. data = allRecords s @ rest"
    if "multiPage_finish up rep ps totalLimit ?s' w1 = Some (Inr data, w2)" for data w2
  proof (cases "slicing_wanted ps totalLimit ?s'")
    case False
    with that plain show ?thesis by simp
  next
    case True
    with that obtain ts a b n where
      d: "dedup_records ts (allRecords s, seenRecords s) 0 = (None, (a, b), n)"
      and data: "data = slice0 a totalLimit"
      by (auto simp: multiPage_finish_def split: option.splits prod.splits)
    from dedup_first_copies [OF d] data slice0_append [OF len] show ?thesis by simp
  qed
  from first later plain pre show ?thesis by auto
qed


lemma flatten_replicate:
  "item_records r = Inr [r] \<Longrightarrow> flatten_items (replicate n r) = Inr (replicate n r)"
  by (induction n) simp_all

lemma dedup_replicate_seen:
  "recordId r = Inr k \<Longrightarrow> has seen k \<Longrightarrow>
     dedup_records (replicate n r) (a, seen) m = (None, (a, seen), m)"
  by (induction n) simp_all

lemma dedup_replicate_new:
  assumes "recordId r = Inr k" and "\<not> has seen k" and "same_value k k"
  shows "dedup_records (replicate (Suc n) r) (a, seen) m = (None, (a @ [r], seen @ [k]), m + 1)"
proof -
  have "has (seen @ [k]) k" using assms(3) by (simp add: has_def)
  from dedup_replicate_seen [OF assms(1) this] assms(1,2) show ?thesis by simp
qed

lemma singlePage_first_success:
  assumes "page_attempt up (if truthy_num lim then ps\<lparr>limit := lim\<rparr> else ps) (calls w) = Inr rs"
    and "ENDPOINTS rep \<noteq> None"
  shows "fetchReportSinglePage up rep ps lim w = (Inr (Some rs), w\<lparr>calls := calls w + 1\<rparr>)"
  using assms
  by (auto simp: fetchReportSinglePage_def singlePage_loop.simps [of _ _ 0] MAX_RETRIES_def)

lemma singlePage_three_failures:
  assumes "page_attempt up (if truthy_num lim then ps\<lparr>limit := lim\<rparr> else ps) (calls w) = Inl e0"
    and "page_attempt up (if truthy_num lim then ps\<lparr>limit := lim\<rparr> else ps) (calls w + 1) = Inl e1"
    and "page_attempt up (if truthy_num lim then ps\<lparr>limit := lim\<rparr> else ps) (calls w + 2) = Inl e2"
    and "ENDPOINTS rep \<noteq> None"
  shows "fetchReportSinglePage up rep ps lim w
           = (Inl e2, w\<lparr>calls := calls w + 3, sleeps := sleeps w @ [1000, 2000]\<rparr>)"
  using assms
  by (auto simp: fetchReportSinglePage_def singlePage_loop.simps [of _ _ 0]
        singlePage_loop.simps [of _ _ "Suc 0"] singlePage_loop.simps [of _ _ "Suc (Suc 0)"]
        MAX_RETRIES_def numeral_2_eq_2 numeral_3_eq_3)

lemma c10_attempt:
  "page_attempt c10_upstream q n =
     (if n < 2 then Inr (replicate 500 first_a)
      else if n < 5 then Inl (TransportError n)
      else Inr [only_b])"
proof -
  have i: "item_records first_a = Inr [first_a]" by code_simp
  have "singlePage_rawData (JObj [(''data'', JArr (replicate 500 first_a))])
          = Inr (replicate 500 first_a)"
    by (simp add: singlePage_rawData_def read_prop_def own_props_def)
  then have a: "singlePage_records (JObj [(''data'', JArr (replicate 500 first_a))])
          = Inr (replicate 500 first_a)"
    by (simp add: singlePage_records_def flatten_replicate [OF i])
  have b: "singlePage_records (JArr [only_b]) = Inr [only_b]" by code_simp
  show ?thesis by (simp add: page_attempt_def c10_upstream_def a b)
qed

lemma c10_ids: "recordId first_a = Inr (JStr ''a'')" "recordId only_b = Inr (JStr ''b___'')"
  by code_simp+

lemma c10_fetch_page:
  "c < 2 \<Longrightarrow> fetchReportSinglePage c10_upstream Cdrs ps lim \<lparr>calls = c, sleeps = sl\<rparr>
             = (Inr (Some (replicate 500 first_a)), \<lparr>calls = c + 1, sleeps = sl\<rparr>)"
  by (subst singlePage_first_success [where rs = "replicate 500 first_a"])
     (simp_all add: c10_attempt)

lemma c10_body1:
  "multiPage_body c10_upstream Cdrs c10_params 1000 mp_init world0
     = (Next \<lparr> allRecords = [first_a], seenRecords = [JStr ''a''], currentOffset = 500,
          hasMoreData = True, pageCount = 1, consecutiveEmptyPages = 0,
          consecutiveDuplicatePages = 0 \<rparr>, \<lparr>calls = 1, sleeps = [100]\<rparr>)"
proof -
  have d: "dedup_records (replicate 500 first_a) ([], []) 0 = (None, ([first_a], [JStr ''a'']), 1)"
    using dedup_replicate_new [where n = 499 and r = first_a and k = "JStr ''a''"
        and seen = "[]" and a = "[]" and m = 0]
    by (simp add: c10_ids has_def)
  show ?thesis
    by (simp add: multiPage_body_def Let_def c10_fetch_page world0_def d mp_init_def pageSize_def)
qed

lemma c10_body2:
  "multiPage_body c10_upstream Cdrs c10_params 1000
     \<lparr> allRecords = [first_a], seenRecords = [JStr ''a''], currentOffset = 500,
          hasMoreData = True, pageCount = 1, consecutiveEmptyPages = 0,
          consecutiveDuplicatePages = 0 \<rparr> \<lparr>calls = 1, sleeps = [100]\<rparr>
     = (Next c10_after_two, \<lparr>calls = 2, sleeps = [100, 100]\<rparr>)"
proof -
  have d: "dedup_records (replicate 500 first_a) ([first_a], [JStr ''a'']) 0
             = (None, ([first_a], [JStr ''a'']), 0)"
    by (rule dedup_replicate_seen [where k = "JStr ''a''"]) (simp_all add: c10_ids has_def)
  show ?thesis
    by (simp add: multiPage_body_def Let_def c10_fetch_page d pageSize_def c10_after_two_def)
qed

lemma c10_fetch3:
  "fetchReportSinglePage c10_upstream Cdrs ps lim \<lparr>calls = 2, sleeps = [100, 100]\<rparr>
     = (Inl (TransportError 4), \<lparr>calls = 5, sleeps = [100, 100, 1000, 2000]\<rparr>)"
  by (subst singlePage_three_failures [where ?e0.0 = "TransportError 2"
        and ?e1.0 = "TransportError 3" and ?e2.0 = "TransportError 4"])
     (simp_all add: c10_attempt)

lemma c10_reach: "mp_reach c10_upstream Cdrs c10_params 1000 world0 c10_after_two
                    \<lparr>calls = 2, sleeps = [100, 100]\<rparr>"
proof -
  have r1: "mp_reach c10_upstream Cdrs c10_params 1000 world0
          \<lparr> allRecords = [first_a], seenRecords = [JStr ''a''], currentOffset = 500,
          hasMoreData = True, pageCount = 1, consecutiveEmptyPages = 0,
          consecutiveDuplicatePages = 0 \<rparr> \<lparr>calls = 1, sleeps = [100]\<rparr>"
    by (rule mp_reach.iter [OF mp_reach.start _ _ _ c10_body1]) (simp_all add: mp_init_def)
  show ?thesis
    by (rule mp_reach.iter [OF r1 _ _ _ c10_body2]) simp_all
qed

lemma c10_slices:
  "fetchWithTimeSlicing c10_upstream Cdrs c10_params 999 \<lparr>calls = 5, sleeps = [100, 100, 1000, 2000]\<rparr>
     = Some ([only_b, only_b, only_b, only_b],
             \<lparr>calls = 9, sleeps = [100, 100, 1000, 2000, 200, 200, 200, 200]\<rparr>)"
proof -
  have t: "time_chunks 1000 1016 = Some [(1000, 1004), (1004, 1008), (1008, 1012), (1012, 1016)]"
    by code_simp
  have f: "5 \<le> c \<Longrightarrow> fetchReportSinglePage c10_upstream Cdrs ps lim \<lparr>calls = c, sleeps = sl\<rparr>
             = (Inr (Some [only_b]), \<lparr>calls = c + 1, sleeps = sl\<rparr>)" for c ps lim sl
    by (subst singlePage_first_success [where rs = "[only_b]"]) (simp_all add: c10_attempt)
  show ?thesis
    by (simp add: fetchWithTimeSlicing_def c10_params_def t f)
qed

text \<open>
  Claim C10 as stated fails on its second half: here the third page fails after two
  pages that left one unique record and one page of duplicates, the request has a time
  range, and the result also holds a record that came from the time slices fetched
  after the failure, not from an earlier page.
\<close>

theorem later_failure_then_slices_counterexample:
  "fetchReportMultiPage c10_upstream Cdrs c10_params 1000 world0
     = Some (Inr [first_a, only_b],
             \<lparr>calls = 9, sleeps = [100, 100, 1000, 2000, 200, 200, 200, 200]\<rparr>)"
proof -
  let ?s3 = "c10_after_two\<lparr>pageCount := 3, hasMoreData := False\<rparr>"
  let ?w3 = "\<lparr>calls = 5, sleeps = [100, 100, 1000, 2000]\<rparr>"
  have b3: "multiPage_body c10_upstream Cdrs c10_params 1000 c10_after_two
              \<lparr>calls = 2, sleeps = [100, 100]\<rparr> = (Next ?s3, ?w3)"
    by (simp add: multiPage_body_def Let_def c10_fetch3 c10_after_two_def)
  have l3: "multiPage_loop c10_upstream Cdrs c10_params 1000 ?s3 ?w3 = (Inr ?s3, ?w3)"
    by (subst multiPage_loop.simps) simp
  have l2: "multiPage_loop c10_upstream Cdrs c10_params 1000 c10_after_two
              \<lparr>calls = 2, sleeps = [100, 100]\<rparr> = (Inr ?s3, ?w3)"
    by (subst multiPage_loop.simps) (simp add: b3 l3, simp add: c10_after_two_def)
  from mp_reach_loop [OF c10_reach] l2
  have l: "multiPage_loop c10_upstream Cdrs c10_params 1000 mp_init world0 = (Inr ?s3, ?w3)"
    by simp
  have w: "slicing_wanted c10_params 1000 ?s3"
    by (simp add: slicing_wanted_def c10_after_two_def c10_params_def)
  have d: "dedup_records [only_b, only_b, only_b, only_b] ([first_a], [JStr ''a'']) 0
             = (None, ([first_a, only_b], [JStr ''a'', JStr ''b___'']), 1)"
    by (simp add: c10_ids has_def)
  show ?thesis
    using w c10_slices d
    by (simp add: fetchReportMultiPage_def l multiPage_finish_def c10_after_two_def slice0_def)
qed

theorem page_failures_witness:
  "mp_reach c10_upstream Cdrs c10_params 1000 world0 c10_after_two \<lparr>calls = 2, sleeps = [100, 100]\<rparr>
   \<and> int (length (allRecords c10_after_two)) < 1000 \<and> hasMoreData c10_after_two
   \<and> pageCount c10_after_two < 5 \<and> 0 < pageCount c10_after_two
   \<and> fetchReportSinglePage c10_upstream Cdrs
        (c10_params\<lparr>limit := Some (min pageSize (1000 - int (length (allRecords c10_after_two)))),
            offset := Some (currentOffset c10_after_two)\<rparr>)
        (Some (min pageSize (1000 - int (length (allRecords c10_after_two)))))
        \<lparr>calls = 2, sleeps = [100, 100]\<rparr>
       = (Inl (TransportError 4), \<lparr>calls = 5, sleeps = [100, 100, 1000, 2000]\<rparr>)
   \<and> fetchReportMultiPage c10_upstream Cdrs c10_params 1000 world0
       = multiPage_finish c10_upstream Cdrs c10_params 1000
           (c10_after_two\<lparr>pageCount := pageCount c10_after_two + 1, hasMoreData := False\<rparr>)
           \<lparr>calls = 5, sleeps = [100, 100, 1000, 2000]\<rparr>"
proof -
  have g: "int (length (allRecords c10_after_two)) < 1000" "hasMoreData c10_after_two"
    "pageCount c10_after_two < 5" "0 < pageCount c10_after_two"
    by (simp_all add: c10_after_two_def)
  from page_failures [OF c10_reach g(1-3) c10_fetch3] g c10_reach c10_fetch3
  show ?thesis by simp
qed

section \<open>The records the multi-page aggregator keeps\<close>
























section \<open>Properties of the payload normalisation\<close>

lemma digit_chars:
  "char_of (48::int) = CHR ''0''" "char_of (49::int) = CHR ''1''" "char_of (50::int) = CHR ''2''"
  "char_of (51::int) = CHR ''3''" "char_of (52::int) = CHR ''4''" "char_of (53::int) = CHR ''5''"
  "char_of (54::int) = CHR ''6''" "char_of (55::int) = CHR ''7''" "char_of (56::int) = CHR ''8''"
  "char_of (57::int) = CHR ''9''"
  by code_simp+

lemma digit_cases:
  assumes "0 \<le> d" and "d < (10::int)"
  shows "d = 0 \<or> d = 1 \<or> d = 2 \<or> d = 3 \<or> d = 4 \<or> d = 5 \<or> d = 6 \<or> d = 7 \<or> d = 8 \<or> d = 9"
  using assms by arith

lemma digit_char_props:
  assumes "0 \<le> d" and "d < (10::int)"
  shows "is_digit (char_of (48 + d))" and "digit_val (char_of (48 + d)) = d"
    and "char_of (48 + d) = CHR ''0'' \<longleftrightarrow> d = 0"
proof -
  from digit_cases [OF assms] show "is_digit (char_of (48 + d))"
    by (elim disjE) (simp_all add: is_digit_def digit_chars)
  from assms show "digit_val (char_of (48 + d)) = d"
    by (simp add: digit_val_def)
  from digit_cases [OF assms] show "char_of (48 + d) = CHR ''0'' \<longleftrightarrow> d = 0"
    by (elim disjE) (simp_all add: digit_chars)
qed

lemma int_of_digits_snoc: "int_of_digits (xs @ [c]) = 10 * int_of_digits xs + digit_val c"
  by (simp add: int_of_digits_def)

lemma dec_digits_props:
  "0 \<le> n \<Longrightarrow> all_digits (dec_digits n) \<and> int_of_digits (dec_digits n) = n
                \<and> (dec_digits n = ''0'' \<or> hd (dec_digits n) \<noteq> CHR ''0'')"
proof (induction n rule: dec_digits.induct)
  case (1 n)
  show ?case
  proof (cases "n < 10")
    case True
    with "1.prems" digit_char_props [of n] show ?thesis
      by (subst (1 2 3 4) dec_digits.simps)
         (auto simp: all_digits_def int_of_digits_def digit_chars)
  next
    case False
    then have pos: "0 \<le> n div 10" "0 < n div 10" by simp_all
    from "1.IH" [OF False pos(1)]
    have ih: "all_digits (dec_digits (n div 10))" "int_of_digits (dec_digits (n div 10)) = n div 10"
      "dec_digits (n div 10) = ''0'' \<or> hd (dec_digits (n div 10)) \<noteq> CHR ''0''" by simp_all
    have d: "0 \<le> n mod 10" "n mod 10 < 10" by simp_all
    have ne: "dec_digits (n div 10) \<noteq> []" using ih(1) by (simp add: all_digits_def)
    have nz: "dec_digits (n div 10) \<noteq> ''0''"
    proof
      assume "dec_digits (n div 10) = ''0''"
      then have "int_of_digits (dec_digits (n div 10)) = 0"
        by (simp add: int_of_digits_def digit_val_def)
      with ih(2) pos(2) show False by simp
    qed
    have eq: "dec_digits n = dec_digits (n div 10) @ [char_of (48 + n mod 10)]"
      using False by (subst dec_digits.simps) simp
    have "all_digits (dec_digits n)"
      using ih(1) digit_char_props(1) [OF d] by (simp add: eq all_digits_def)
    moreover have "int_of_digits (dec_digits n) = n"
      using ih(2) digit_char_props(2) [OF d] by (simp add: eq int_of_digits_snoc)
    moreover have "hd (dec_digits n) \<noteq> CHR ''0''"
      using ih(3) nz ne by (simp add: eq)
    ultimately show ?thesis by simp
  qed
qed

lemma dec_digits_index:
  "0 \<le> n \<Longrightarrow> n < 4294967295 \<Longrightarrow> is_array_index (dec_digits n)"
  using dec_digits_props [of n] by (simp add: is_array_index_def)

lemma set_prop_keys: "fst ` set (set_prop ps k v) = insert k (fst ` set ps)"
proof (induction ps)
  case Nil
  show ?case by simp
next
  case (Cons p ps)
  obtain k' v' where p: "p = (k', v')" by (cases p)
  with Cons show ?case by (cases "k' = k") auto
qed

lemma set_prop_distinct: "distinct (map fst ps) \<Longrightarrow> distinct (map fst (set_prop ps k v))"
proof (induction ps)
  case Nil
  then show ?case by simp
next
  case (Cons p ps)
  obtain k' v' where p: "p = (k', v')" by (cases p)
  with Cons show ?case using set_prop_keys [of ps k v] by auto
qed

lemma foldl_set_prop_distinct:
  "distinct (map fst ps) \<Longrightarrow> distinct (map fst (foldl (\<lambda>ps (k, v). set_prop ps k v) ps ms))"
  by (induction ms arbitrary: ps) (auto simp: set_prop_distinct split: prod.splits)

lemma own_props_distinct: "distinct (map fst (own_props ms))"
  by (simp add: own_props_def foldl_set_prop_distinct)

lemma set_own_entries: "set (own_entries ms) = set (own_props ms)"
  by (auto simp: own_entries_def Let_def)


lemma sorted_upt_int: "sorted (map int [0..<n])"
  by (induction n) (auto simp: sorted_append)

lemma key_of_index:
  assumes "fst ` set ps = (\<lambda>i. dec_digits (int i)) ` {..<n}" and "p \<in> set ps"
  obtains i where "i < n" and "fst p = dec_digits (int i)"
proof -
  from assms(2) have "fst p \<in> fst ` set ps" by simp
  with assms(1) have "fst p \<in> (\<lambda>i. dec_digits (int i)) ` {..<n}" by simp
  then show ?thesis using that by auto
qed

lemma digits_of_index: "int_of_digits (dec_digits (int i)) = int i" "all_digits (dec_digits (int i))"
  using dec_digits_props [of "int i"] by simp_all

lemma sorted_keys_are_indices:
  fixes ps :: "(string \<times> json) list"
  assumes dist: "distinct (map fst ps)"
    and kset: "fst ` set ps = (\<lambda>i. dec_digits (int i)) ` {..<n}"
  shows "map (\<lambda>p. int_of_digits (fst p)) (sort_key (\<lambda>p. int_of_digits (fst p)) ps)
           = map int [0..<n]"
proof -
  let ?D = "\<lambda>i. dec_digits (int i)"
  let ?f = "\<lambda>p :: string \<times> json. int_of_digits (fst p)"
  let ?xs = "sort_key ?f ps"
  have inj: "inj_on ?f (set ps)"
  proof (rule inj_onI)
    fix p q assume p: "p \<in> set ps" and q: "q \<in> set ps" and e: "?f p = ?f q"
    from key_of_index [OF kset p] obtain i where i: "fst p = ?D i" by blast
    from key_of_index [OF kset q] obtain j where j: "fst q = ?D j" by blast
    from e i j have "i = j" by (simp add: digits_of_index)
    with i j have k: "fst p = fst q" by simp
    obtain a b where pa: "p = (a, b)" by (cases p)
    obtain c d where qc: "q = (c, d)" by (cases q)
    from k pa qc have "a = c" by simp
    moreover from eq_key_imp_eq_value [OF dist, of a b d] p q pa qc \<open>a = c\<close> have "b = d" by simp
    ultimately show "p = q" using pa qc by simp
  qed
  have dps: "distinct ps" using dist by (simp add: distinct_map)
  have d1: "distinct (map ?f ?xs)" using inj dps by (simp add: distinct_map)
  have s1: "sorted (map ?f ?xs)" by simp
  have d2: "distinct (map int [0..<n])" by (simp add: distinct_map)
  have "?f ` set ps = int ` {..<n}"
  proof (intro equalityI subsetI)
    fix y assume "y \<in> ?f ` set ps"
    then obtain p where p: "p \<in> set ps" "y = ?f p" by blast
    from key_of_index [OF kset p(1)] obtain i where "i < n" "fst p = ?D i" by blast
    with p show "y \<in> int ` {..<n}" by (simp add: digits_of_index)
  next
    fix y assume "y \<in> int ` {..<n}"
    then obtain i where i: "i < n" "y = int i" by blast
    then have "?D i \<in> ?D ` {..<n}" by simp
    with kset have "?D i \<in> fst ` set ps" by simp
    then obtain p where p: "p \<in> set ps" "fst p = ?D i" by auto
    then have "?f p = y" using i by (simp add: digits_of_index)
    with p(1) show "y \<in> ?f ` set ps" by blast
  qed
  then have e: "set (map ?f ?xs) = set (map int [0..<n])"
    by (simp add: atLeast0LessThan)
  show ?thesis
    by (rule sorted_distinct_set_unique [OF s1 d1 sorted_upt_int d2 e])
qed


lemma pseudo_array_values:
  assumes n: "0 < n" "int n \<le> 4294967295"
    and keys: "set (object_keys (JObj ms)) = (\<lambda>i. dec_digits (int i)) ` {..<n}"
  shows "object_values (JObj ms) = map (\<lambda>i. the (get (JObj ms) (dec_digits (int i)))) [0..<n]"
    and "list_all all_digits (object_keys (JObj ms))" and "object_keys (JObj ms) \<noteq> []"
    and "get (JObj ms) ''data'' = None" and "get (JObj ms) ''rows'' = None"
proof -
  let ?D = "\<lambda>i. dec_digits (int i)"
  let ?f = "\<lambda>p :: string \<times> json. int_of_digits (fst p)"
  define ps where "ps = own_props ms"
  have dist: "distinct (map fst ps)" by (simp add: ps_def own_props_distinct)
  have kset: "fst ` set ps = ?D ` {..<n}"
    using keys by (simp add: object_keys_def set_own_entries ps_def)
  have idx: "is_array_index (fst p)" if "p \<in> set ps" for p
  proof -
    from key_of_index [OF kset that] obtain i where "i < n" "fst p = ?D i" by blast
    with n(2) show ?thesis by (simp add: dec_digits_index)
  qed
  then have all: "filter (\<lambda>p. is_array_index (fst p)) ps = ps"
    and none: "filter (\<lambda>p. \<not> is_array_index (fst p)) ps = []"
    by (simp_all add: filter_empty_conv)
  define xs where "xs = sort_key ?f ps"
  have ent: "own_entries ms = xs"
    by (simp add: own_entries_def Let_def ps_def [symmetric] all none xs_def)
  have xset: "set xs = set ps" by (simp add: xs_def)
  have fx: "map ?f xs = map int [0..<n]"
    unfolding xs_def by (rule sorted_keys_are_indices [OF dist kset])
  have "length (map ?f xs) = length (map int [0..<n])" by (simp only: fx)
  then have len: "length xs = n" by simp
  have val: "snd (xs ! i) = the (get (JObj ms) (?D i))" if "i < n" for i
  proof -
    from that len have "xs ! i \<in> set xs" by simp
    with xset have mem: "xs ! i \<in> set ps" by simp
    have "map ?f xs ! i = map int [0..<n] ! i" by (simp only: fx)
    with that len have fi: "?f (xs ! i) = int i" by simp
    from key_of_index [OF kset mem] obtain j where j: "fst (xs ! i) = ?D j" by blast
    with fi have "j = i" by (simp add: digits_of_index)
    with j have k: "fst (xs ! i) = ?D i" by simp
    from mem have "(fst (xs ! i), snd (xs ! i)) \<in> set ps" by simp
    from map_of_is_SomeI [OF dist this] k show ?thesis by (simp add: ps_def)
  qed
  have "map snd xs = map snd (map (\<lambda>i. xs ! i) [0..<length xs])" by (simp only: map_nth)
  also have "\<dots> = map (\<lambda>i. snd (xs ! i)) [0..<n]" by (simp add: len)
  also have "\<dots> = map (\<lambda>i. the (get (JObj ms) (?D i))) [0..<n]"
    using val by simp
  finally show "object_values (JObj ms) = map (\<lambda>i. the (get (JObj ms) (?D i))) [0..<n]"
    by (simp add: object_values_def ent)
  have kd: "all_digits k" if "k \<in> set (object_keys (JObj ms))" for k
  proof -
    from that keys obtain i where "k = ?D i" by auto
    then show ?thesis by (simp add: digits_of_index)
  qed
  then show "list_all all_digits (object_keys (JObj ms))" by (simp add: list_all_iff)
  from n(1) have "?D 0 \<in> ?D ` {..<n}" by blast
  with keys show "object_keys (JObj ms) \<noteq> []" by auto
  have nk: "map_of ps name = None" if "\<not> all_digits name" for name
  proof -
    have "name \<notin> fst ` set ps"
    proof
      assume "name \<in> fst ` set ps"
      with kset obtain i where "name = ?D i" by auto
      with that show False by (simp add: digits_of_index)
    qed
    then show ?thesis by (simp add: map_of_eq_None_iff)
  qed
  have "\<not> all_digits ''data''" "\<not> all_digits ''rows''"
    by (simp_all add: all_digits_def is_digit_def)
  with nk show "get (JObj ms) ''data'' = None" "get (JObj ms) ''rows'' = None"
    by (simp_all add: ps_def [symmetric])
qed


text \<open>
  Claim C5 as stated fails on its last rule: a mapping whose single key is \<open>5\<close> does not
  have the keys \<open>0\<close>, ..., \<open>n - 1\<close>, yet \<^verbatim>\<open>fetchReport\<close> takes it for a pseudo-array
  and returns its value as it is, where the rule as worded puts the key into the record.
\<close>

theorem sparse_keys_counterexample:
  "fetchReport_chunk sparse_body = Inr [JObj [(''a'', JNum 1)]]
   \<and> spec_normalize sparse_body = [JObj [(''key'', JStr ''5''), (''a'', JNum 1)]]"
  by code_simp

lemma flatten_items_Inr:
  "flatten_items items = Inr rs \<longleftrightarrow>
     (\<exists>rss. map item_records items = map Inr rss \<and> rs = concat rss)"
proof (induction items arbitrary: rs)
  case Nil
  show ?case by auto
next
  case (Cons item items)
  show ?case
  proof (cases "item_records item")
    case (Inl e)
    then show ?thesis by (auto simp: map_eq_Cons_conv)
  next
    case (Inr xs)
    show ?thesis
    proof (cases "flatten_items items")
      case (Inl e)
      with Cons.IH have no: "\<And>rss. map item_records items \<noteq> map Inr rss" by auto
      from Inl Inr no show ?thesis by (auto simp: map_eq_Cons_conv)
    next
      case r: (Inr rest)
      with Cons.IH [of rest] obtain rss where rss: "map item_records items = map Inr rss"
        "rest = concat rss" by auto
      show ?thesis
      proof
        assume "flatten_items (item # items) = Inr rs"
        with Inr r have "rs = xs @ rest" by simp
        with Inr rss have "map item_records (item # items) = map Inr (xs # rss) \<and> rs = concat (xs # rss)"
          by simp
        then show "\<exists>rss. map item_records (item # items) = map Inr rss \<and> rs = concat rss"
          by blast
      next
        assume "\<exists>rss. map item_records (item # items) = map Inr rss \<and> rs = concat rss"
        then obtain rss' where h: "map item_records (item # items) = map Inr rss'" "rs = concat rss'"
          by blast
        from h(1) Inr obtain tl' where t: "rss' = xs # tl'" "map item_records items = map Inr tl'"
          by (auto simp: map_eq_Cons_conv)
        from t(2) rss(1) have "map Inr tl' = (map Inr rss :: (error + json list) list)" by simp
        then have "tl' = rss" by (simp add: inj_map_eq_map)
        with t h(2) rss(2) Inr r show "flatten_items (item # items) = Inr rs" by simp
      qed
    qed
  qed
qed

lemma array_keys_values:
  "list_all all_digits (object_keys (JArr ys))" "object_values (JArr ys) = ys"
  "object_keys (JArr ys) = [] \<longleftrightarrow> ys = []"
proof -
  show "list_all all_digits (object_keys (JArr ys))"
    by (simp add: object_keys_def list_all_iff digits_of_index)
  have "object_values (JArr ys) = map (\<lambda>i. ys ! i) [0..<length ys]"
    by (simp add: object_values_def comp_def)
  then show "object_values (JArr ys) = ys" by (simp add: map_nth)
  show "object_keys (JArr ys) = [] \<longleftrightarrow> ys = []"
    by (simp add: object_keys_def)
qed

lemma rawData_rules:
  "singlePage_rawData (JArr xs) = Inr xs"
  "as_array (get (JObj ms) ''data'') = Some xs \<Longrightarrow> singlePage_rawData (JObj ms) = Inr xs"
  "as_array (get (JObj ms) ''data'') = None \<Longrightarrow> as_array (get (JObj ms) ''rows'') = Some xs
     \<Longrightarrow> singlePage_rawData (JObj ms) = Inr xs"
  "as_array (get (JObj ms) ''data'') = None \<Longrightarrow> as_array (get (JObj ms) ''rows'') = None
     \<Longrightarrow> numeric_keys (JObj ms)
     \<Longrightarrow> singlePage_rawData (JObj ms) = Inr (object_values (JObj ms))"
  "as_array (get (JObj ms) ''data'') = None \<Longrightarrow> as_array (get (JObj ms) ''rows'') = None
     \<Longrightarrow> \<not> numeric_keys (JObj ms)
     \<Longrightarrow> singlePage_rawData (JObj ms) = Inr [JObj ms]"
  by (auto simp: singlePage_rawData_def read_prop_def Let_def numeric_keys_def)

lemma chunk_rules:
  "fetchReport_chunk (JArr xs) = Inr xs"
  "as_array (get (JObj ms) ''data'') = Some xs \<Longrightarrow> fetchReport_chunk (JObj ms) = Inr xs"
  "as_array (get (JObj ms) ''data'') = None \<Longrightarrow> as_array (get (JObj ms) ''rows'') = Some xs
     \<Longrightarrow> fetchReport_chunk (JObj ms) = Inr xs"
  "as_array (get (JObj ms) ''data'') = None \<Longrightarrow> as_array (get (JObj ms) ''rows'') = None
     \<Longrightarrow> numeric_keys (JObj ms)
     \<Longrightarrow> fetchReport_chunk (JObj ms) = Inr (object_values (JObj ms))"
  "as_array (get (JObj ms) ''data'') = None \<Longrightarrow> as_array (get (JObj ms) ''rows'') = None
     \<Longrightarrow> \<not> numeric_keys (JObj ms)
     \<Longrightarrow> fetchReport_chunk (JObj ms)
           = Inr (map (\<lambda>(k, v). JObj (spread [(''key'', JStr k)] v)) (object_entries (JObj ms)))"
  by (auto simp: fetchReport_chunk_def read_prop_def Let_def numeric_keys_def)

lemma pseudo_array_rules:
  assumes "0 < n" and "int n \<le> 4294967295"
    and "set (object_keys (JObj ms)) = (\<lambda>i. dec_digits (int i)) ` {..<n}"
  shows "fetchReport_chunk (JObj ms)
           = Inr (map (\<lambda>i. the (get (JObj ms) (dec_digits (int i)))) [0..<n])"
    and "singlePage_rawData (JObj ms)
           = Inr (map (\<lambda>i. the (get (JObj ms) (dec_digits (int i)))) [0..<n])"
proof -
  note p = pseudo_array_values [OF assms]
  from p(4,5) have d: "as_array (get (JObj ms) ''data'') = None"
    "as_array (get (JObj ms) ''rows'') = None" by simp_all
  from p(2,3) have k: "numeric_keys (JObj ms)" by (simp add: numeric_keys_def)
  from chunk_rules(4) [OF d k] p(1)
  show "fetchReport_chunk (JObj ms)
           = Inr (map (\<lambda>i. the (get (JObj ms) (dec_digits (int i)))) [0..<n])" by simp
  from rawData_rules(4) [OF d k] p(1)
  show "singlePage_rawData (JObj ms)
           = Inr (map (\<lambda>i. the (get (JObj ms) (dec_digits (int i)))) [0..<n])" by simp
qed

lemma item_rules:
  "as_array (get item ''cdrs'') = Some cdrs \<Longrightarrow> item_records item = map_err processedCdr cdrs"
  "as_array (get item ''cdrs'') = None \<Longrightarrow> is_object item \<Longrightarrow> numeric_keys item
     \<Longrightarrow> item_records item = Inr (object_values item)"
  "as_array (get item ''cdrs'') = None \<Longrightarrow> \<not> (is_object item \<and> numeric_keys item)
     \<Longrightarrow> item_records item = Inr [item]"
proof -
  show "item_records item = map_err processedCdr cdrs" if "as_array (get item ''cdrs'') = Some cdrs"
    using that by (cases item) (simp_all add: item_records_def)
  show "item_records item = Inr (object_values item)"
    if "as_array (get item ''cdrs'') = None" "is_object item" "numeric_keys item"
    using that by (cases item) (simp_all add: item_records_def Let_def numeric_keys_def)
  show "item_records item = Inr [item]"
    if "as_array (get item ''cdrs'') = None" "\<not> (is_object item \<and> numeric_keys item)"
    using that by (cases item) (auto simp: item_records_def Let_def numeric_keys_def)
qed

lemma singlePage_records_Inr:
  "singlePage_records body = Inr rs \<longleftrightarrow>
     (\<exists>rawData rss. singlePage_rawData body = Inr rawData
        \<and> map item_records rawData = map Inr rss \<and> rs = concat rss)"
  by (cases "singlePage_rawData body") (auto simp: singlePage_records_def flatten_items_Inr)

lemma wrapped_records:
  assumes "as_array (get (JObj ms) ''data'') = None" and "as_array (get (JObj ms) ''rows'') = None"
    and "\<not> numeric_keys (JObj ms)"
  shows "singlePage_records (JObj ms)
           = (case as_array (get (JObj ms) ''cdrs'') of
                Some cdrs \<Rightarrow> map_err processedCdr cdrs
              | None \<Rightarrow> Inr [JObj ms])"
proof -
  have "singlePage_records (JObj ms) = item_records (JObj ms)"
    by (simp add: singlePage_records_def rawData_rules(5) [OF assms] split: sum.splits)
  also have "\<dots> = (case as_array (get (JObj ms) ''cdrs'') of
                Some cdrs \<Rightarrow> map_err processedCdr cdrs
              | None \<Rightarrow> Inr [JObj ms])"
    using assms(3) by (auto simp: item_records_def Let_def numeric_keys_def split: option.splits)
  finally show ?thesis .
qed

lemma processedCdr_plain:
  "cdr \<noteq> JNull \<Longrightarrow> \<not> truthy_opt (get cdr ''fonoUC'')
     \<Longrightarrow> processedCdr cdr = Inr (JObj (spread [] cdr))"
  by (simp add: processedCdr_def read_prop_def Let_def)

lemma map_of_set_prop:
  "map_of (set_prop ps k v) k' = (if k' = k then Some v else map_of ps k')"
  by (induction ps) auto

lemma set_prop_fresh: "k \<notin> fst ` set ps \<Longrightarrow> set_prop ps k v = ps @ [(k, v)]"
  by (induction ps) auto

lemma foldl_set_prop_fresh:
  "distinct (map fst qs) \<Longrightarrow> fst ` set acc \<inter> fst ` set qs = {}
     \<Longrightarrow> foldl (\<lambda>ps (k, v). set_prop ps k v) acc qs = acc @ qs"
proof (induction qs arbitrary: acc)
  case Nil
  show ?case by simp
next
  case (Cons q qs)
  obtain k v where q: "q = (k, v)" by (cases q)
  from Cons.prems q have fresh: "k \<notin> fst ` set acc" by auto
  from Cons.prems q have d: "distinct (map fst qs)"
    and i: "fst ` set (acc @ [(k, v)]) \<inter> fst ` set qs = {}" by auto
  from Cons.IH [OF d i] q fresh show ?case by (simp add: set_prop_fresh)
qed

lemma own_props_id: "distinct (map fst ps) \<Longrightarrow> own_props ps = ps"
  using foldl_set_prop_fresh [of ps "[]"] by (simp add: own_props_def)

lemma get_distinct: "distinct (map fst p) \<Longrightarrow> get (JObj p) name = map_of p name"
  by (simp add: own_props_id)

lemma own_entries_distinct: "distinct (map fst (own_entries cs))"
proof -
  have d: "distinct (map fst (own_props cs))" by (rule own_props_distinct)
  then have e: "distinct (own_props cs)" and inj: "inj_on fst (set (own_props cs))"
    by (simp_all add: distinct_map)
  from e have "distinct (own_entries cs)"
    by (auto simp: own_entries_def Let_def)
  with inj show ?thesis by (simp add: distinct_map set_own_entries)
qed

lemma spread_object: "spread [] (JObj cs) = own_entries cs"
  using foldl_set_prop_fresh [of "own_entries cs" "[]"]
  by (simp add: spread_def own_entries_distinct)

lemma get_spread: "get (JObj (spread [] (JObj cs))) name = get (JObj cs) name"
proof -
  have "map_of (own_entries cs) = map_of (own_props cs)"
    using map_of_inject_set [OF own_entries_distinct own_props_distinct, of cs cs]
    by (simp add: set_own_entries)
  then show ?thesis
    by (simp add: spread_object own_props_id own_entries_distinct)
qed

lemma get_set_prop:
  "distinct (map fst p) \<Longrightarrow>
     get (JObj (set_prop p k v)) name = (if name = k then Some v else get (JObj p) name)"
  by (simp add: own_props_id set_prop_distinct map_of_set_prop)

lemma processedCdr_lifted:
  assumes "get (JObj cs) ''fonoUC'' = Some f" and "truthy f"
  shows "\<exists>p. processedCdr (JObj cs) = Inr (JObj p)
     \<and> get (JObj p) ''disposition''
         = (if truthy_opt (get f ''disposition'') then get f ''disposition''
            else get (JObj cs) ''disposition'')
     \<and> get (JObj p) ''follow_up_notes''
         = (if truthy_opt (get f ''follow_up_notes'') then get f ''follow_up_notes''
            else get (JObj cs) ''follow_up_notes'')
     \<and> get (JObj p) ''subdisposition''
         = (if \<not> truthy_opt (get f ''subdisposition'') then get (JObj cs) ''subdisposition''
            else (case the (get f ''subdisposition'') of
                    JStr str \<Rightarrow> get f ''subdisposition''
                  | sub \<Rightarrow>
                     if \<not> truthy_opt (get sub ''name'') then get (JObj cs) ''subdisposition''
                     else if truthy_opt (get sub ''subdisposition'')
                            \<and> truthy_opt (get (the (get sub ''subdisposition'')) ''name'')
                     then Some (JStr (to_string (the (get sub ''name'')) @ '' - ''
                             @ to_string (the (get (the (get sub ''subdisposition'')) ''name''))))
                     else get sub ''name''))
     \<and> (\<forall>name. name \<noteq> ''disposition'' \<and> name \<noteq> ''follow_up_notes'' \<and> name \<noteq> ''subdisposition''
           \<longrightarrow> get (JObj p) name = get (JObj cs) name)"
proof -
  define p0 where "p0 = spread [] (JObj cs)"
  define p1 where "p1 = (if truthy_opt (get f ''disposition'')
                       then set_prop p0 ''disposition'' (the (get f ''disposition''))
                       else p0)"
  define p2 where "p2 = (if truthy_opt (get f ''follow_up_notes'')
                       then set_prop p1 ''follow_up_notes'' (the (get f ''follow_up_notes''))
                       else p1)"
  define p3 where "p3 = (if truthy_opt (get f ''subdisposition'')
                       then
                         (let sub = the (get f ''subdisposition'') in
                          case sub of
                            JStr str \<Rightarrow> set_prop p2 ''subdisposition'' sub
                          | _ \<Rightarrow>
                             if truthy_opt (get sub ''name'')
                             then
                               (if truthy_opt (get sub ''subdisposition'')
                                   \<and> truthy_opt (get (the (get sub ''subdisposition'')) ''name'')
                                then set_prop p2 ''subdisposition''
                                       (JStr (to_string (the (get sub ''name'')) @ '' - ''
                                          @ to_string (the (get (the (get sub ''subdisposition'')) ''name''))))
                                else set_prop p2 ''subdisposition'' (the (get sub ''name'')))
                             else p2)
                       else p2)"
  have res: "processedCdr (JObj cs) = Inr (JObj p3)"
    using assms
    by (simp add: processedCdr_def read_prop_def Let_def p0_def p1_def p2_def p3_def
          cong: json.case_cong if_cong del: get.simps)
  have d0: "distinct (map fst p0)"
    by (simp add: p0_def spread_object own_entries_distinct)
  then have d1: "distinct (map fst p1)" by (simp add: p1_def set_prop_distinct)
  then have d2: "distinct (map fst p2)" by (simp add: p2_def set_prop_distinct)
  have g0: "get (JObj p0) name = get (JObj cs) name" for name
    unfolding p0_def by (rule get_spread)
  have some: "truthy_opt x \<Longrightarrow> Some (the x) = x" for x by (cases x) simp_all
  have g1: "get (JObj p1) name
              = (if name = ''disposition'' \<and> truthy_opt (get f ''disposition'')
                 then get f ''disposition'' else get (JObj cs) name)" for name
    using g0 by (simp add: p1_def get_set_prop [OF d0] some del: get.simps)
  have g2: "get (JObj p2) name
              = (if name = ''follow_up_notes'' \<and> truthy_opt (get f ''follow_up_notes'')
                 then get f ''follow_up_notes'' else get (JObj p1) name)" for name
    by (simp add: p2_def get_set_prop [OF d1] some del: get.simps)
  have g3: "get (JObj p3) name
              = (if name = ''subdisposition'' \<and> truthy_opt (get f ''subdisposition'')
                 then (case the (get f ''subdisposition'') of
                    JStr str \<Rightarrow> get f ''subdisposition''
                  | sub \<Rightarrow>
                     if \<not> truthy_opt (get sub ''name'') then get (JObj p2) name
                     else if truthy_opt (get sub ''subdisposition'')
                            \<and> truthy_opt (get (the (get sub ''subdisposition'')) ''name'')
                     then Some (JStr (to_string (the (get sub ''name'')) @ '' - ''
                             @ to_string (the (get (the (get sub ''subdisposition'')) ''name''))))
                     else get sub ''name'')
                 else get (JObj p2) name)" for name
  proof (cases "get f ''subdisposition''")
    case None
    then show ?thesis by (simp add: p3_def del: get.simps)
  next
    case (Some sub)
    then show ?thesis
      by (cases sub) (simp_all add: p3_def Let_def get_set_prop [OF d2] some del: get.simps)
  qed
  show ?thesis
  proof (cases "get f ''subdisposition''")
    case None
    then show ?thesis
      by (intro exI [of _ p3]) (simp add: res g3 g2 g1 del: get.simps)
  next
    case (Some sub)
    then show ?thesis
      by (intro exI [of _ p3], cases sub) (simp_all add: res g3 g2 g1 del: get.simps)
  qed
qed

text \<open>
  Claim C5, as the code has it. Both fetchers apply the same tests in the same order,
  and the first that matches decides: an array body is taken as it is; otherwise the
  \<^verbatim>\<open>data\<close> array of the mapping; otherwise its \<^verbatim>\<open>rows\<close> array; otherwise, if the
  mapping has keys and all of them are digit strings, its values in the order of
  \<^verbatim>\<open>Object.values\<close>, which for the keys \<open>0\<close>, ..., \<open>n - 1\<close> is the ascending key order
  whatever the order in the body. Of a mapping of any other shape \<^verbatim>\<open>fetchReport\<close>
  makes \<^verbatim>\<open>{ key: k, ...v }\<close> for every key and value, and \<^verbatim>\<open>fetchReportSinglePage\<close>
  takes the mapping as its one item.

  \<^verbatim>\<open>fetchReportSinglePage\<close> then expands every item of the sequence so obtained and
  returns the concatenation, in order: an item with a \<^verbatim>\<open>cdrs\<close> array gives the
  processed copies of the elements of that array; any other object or array whose keys
  are all digit strings (so every non-empty array) gives its values; every other item
  gives itself. Hence a mapping of no recognised shape yields its processed
  \<^verbatim>\<open>cdrs\<close> if it has such an array, and itself as a single record otherwise. The
  processed copy of a \<^verbatim>\<open>cdr\<close> without a \<^verbatim>\<open>fonoUC\<close> annotation is a copy of its own
  properties; with one, \<^verbatim>\<open>disposition\<close> and \<^verbatim>\<open>follow_up_notes\<close> are those of the
  annotation when truthy there, \<^verbatim>\<open>subdisposition\<close> is the annotation's when that is a
  string, or its \<^verbatim>\<open>name\<close> (joined by \<open>-\<close> with the \<^verbatim>\<open>name\<close> of a nested
  \<^verbatim>\<open>subdisposition\<close>, if any), and every other property is the cdr's own.
\<close>

theorem normaliser_rules:
  "(fetchReport_chunk (JArr xs) = Inr xs \<and> singlePage_rawData (JArr xs) = Inr xs)
   \<and> (as_array (get (JObj ms) ''data'') = Some xs
        \<longrightarrow> fetchReport_chunk (JObj ms) = Inr xs \<and> singlePage_rawData (JObj ms) = Inr xs)
   \<and> (as_array (get (JObj ms) ''data'') = None \<and> as_array (get (JObj ms) ''rows'') = Some xs
        \<longrightarrow> fetchReport_chunk (JObj ms) = Inr xs \<and> singlePage_rawData (JObj ms) = Inr xs)
   \<and> (as_array (get (JObj ms) ''data'') = None \<and> as_array (get (JObj ms) ''rows'') = None
        \<and> numeric_keys (JObj ms)
        \<longrightarrow> fetchReport_chunk (JObj ms) = Inr (object_values (JObj ms))
          \<and> singlePage_rawData (JObj ms) = Inr (object_values (JObj ms)))
   \<and> (0 < n \<and> int n \<le> 4294967295
        \<and> set (object_keys (JObj ms)) = (\<lambda>i. dec_digits (int i)) ` {..<n}
        \<longrightarrow> fetchReport_chunk (JObj ms)
              = Inr (map (\<lambda>i. the (get (JObj ms) (dec_digits (int i)))) [0..<n])
          \<and> singlePage_rawData (JObj ms)
              = Inr (map (\<lambda>i. the (get (JObj ms) (dec_digits (int i)))) [0..<n]))
   \<and> (as_array (get (JObj ms) ''data'') = None \<and> as_array (get (JObj ms) ''rows'') = None
        \<and> \<not> numeric_keys (JObj ms)
        \<longrightarrow> fetchReport_chunk (JObj ms)
              = Inr (map (\<lambda>(k, v). JObj (spread [(''key'', JStr k)] v)) (object_entries (JObj ms)))
          \<and> singlePage_rawData (JObj ms) = Inr [JObj ms]
          \<and> singlePage_records (JObj ms)
              = (case as_array (get (JObj ms) ''cdrs'') of
                   Some cdrs \<Rightarrow> map_err processedCdr cdrs
                 | None \<Rightarrow> Inr [JObj ms]))
   \<and> (singlePage_records body = Inr rs \<longleftrightarrow>
        (\<exists>rawData rss. singlePage_rawData body = Inr rawData
           \<and> map item_records rawData = map Inr rss \<and> rs = concat rss))
   \<and> (as_array (get item ''cdrs'') = Some cdrs \<longrightarrow> item_records item = map_err processedCdr cdrs)
   \<and> (as_array (get item ''cdrs'') = None \<and> is_object item \<and> numeric_keys item
        \<longrightarrow> item_records item = Inr (object_values item))
   \<and> (as_array (get item ''cdrs'') = None \<and> \<not> (is_object item \<and> numeric_keys item)
        \<longrightarrow> item_records item = Inr [item])
   \<and> object_values (JArr ys) = ys \<and> (numeric_keys (JArr ys) \<longleftrightarrow> ys \<noteq> [])
   \<and> (cdr \<noteq> JNull \<and> \<not> truthy_opt (get cdr ''fonoUC'')
        \<longrightarrow> processedCdr cdr = Inr (JObj (spread [] cdr)))
   \<and> (get (JObj cs) ''fonoUC'' = Some f \<and> truthy f \<longrightarrow>
        (\<exists>p. processedCdr (JObj cs) = Inr (JObj p)
           \<and> get (JObj p) ''disposition''
               = (if truthy_opt (get f ''disposition'') then get f ''disposition''
                  else get (JObj cs) ''disposition'')
           \<and> get (JObj p) ''follow_up_notes''
               = (if truthy_opt (get f ''follow_up_notes'') then get f ''follow_up_notes''
                  else get (JObj cs) ''follow_up_notes'')
           \<and> get (JObj p) ''subdisposition''
               = (if \<not> truthy_opt (get f ''subdisposition'') then get (JObj cs) ''subdisposition''
                  else (case the (get f ''subdisposition'') of
                          JStr str \<Rightarrow> get f ''subdisposition''
                        | sub \<Rightarrow>
                           if \<not> truthy_opt (get sub ''name'') then get (JObj cs) ''subdisposition''
                           else if truthy_opt (get sub ''subdisposition'')
                                  \<and> truthy_opt (get (the (get sub ''subdisposition'')) ''name'')
                           then Some (JStr (to_string (the (get sub ''name'')) @ '' - ''
                                   @ to_string (the (get (the (get sub ''subdisposition'')) ''name''))))
                           else get sub ''name''))
           \<and> (\<forall>name. name \<noteq> ''disposition'' \<and> name \<noteq> ''follow_up_notes''
                   \<and> name \<noteq> ''subdisposition''
                 \<longrightarrow> get (JObj p) name = get (JObj cs) name)))"
proof -
  have arr: "numeric_keys (JArr ys) \<longleftrightarrow> ys \<noteq> []"
    using array_keys_values(1,3) [of ys] by (simp add: numeric_keys_def)
  show ?thesis
    by (intro conjI impI; (elim conjE)?;
        (rule chunk_rules rawData_rules pseudo_array_rules wrapped_records
           singlePage_records_Inr item_rules array_keys_values(2) arr processedCdr_plain
           processedCdr_lifted;
         assumption))
qed

theorem normaliser_rules_witness:
  "(0::nat) < 2 \<and> int 2 \<le> 4294967295
   \<and> object_keys swapped_body = [''0'', ''1'']
   \<and> fetchReport_chunk swapped_body = Inr [JNum 20, JNum 10]
   \<and> singlePage_rawData swapped_body = Inr [JNum 20, JNum 10]
   \<and> as_array (get wrapped_body ''data'') = None \<and> as_array (get wrapped_body ''rows'') = None
   \<and> \<not> numeric_keys wrapped_body
   \<and> singlePage_rawData wrapped_body = Inr [wrapped_body]
   \<and> singlePage_records wrapped_body
       = Inr [JObj [(''call_id'', JStr ''a'')],
        JObj [(''call_id'', JStr ''b''), (''fonoUC'', JObj [(''disposition'', JStr ''sale'')]),
              (''disposition'', JStr ''sale'')]]"
proof -
  have k: "object_keys swapped_body = [''0'', ''1'']" by code_simp
  have d: "dec_digits 0 = ''0''" "dec_digits 1 = ''1''" by code_simp+
  have "{..<(2::nat)} = {0, 1}" by auto
  with k d have h: "set (object_keys (JObj [(''1'', JNum 10), (''0'', JNum 20)]))
           = (\<lambda>i. dec_digits (int i)) ` {..<2}"
    by (auto simp: swapped_body_def)
  have g: "map (\<lambda>i. the (get (JObj [(''1'', JNum 10), (''0'', JNum 20)]) (dec_digits (int i)))) [0..<2]
             = [JNum 20, JNum 10]"
    by code_simp
  note t1 = normaliser_rules [where ms = "[(''1'', JNum 10), (''0'', JNum 20)]" and n = 2]
  from t1 h g have s: "fetchReport_chunk swapped_body = Inr [JNum 20, JNum 10]"
    "singlePage_rawData swapped_body = Inr [JNum 20, JNum 10]"
    by (simp_all add: swapped_body_def)
  have w: "as_array (get wrapped_body ''data'') = None" "as_array (get wrapped_body ''rows'') = None"
    "\<not> numeric_keys wrapped_body"
    by code_simp+
  have c: "as_array (get wrapped_body ''cdrs'')
             = Some [JObj [(''call_id'', JStr ''a'')],
        JObj [(''call_id'', JStr ''b''), (''fonoUC'', JObj [(''disposition'', JStr ''sale'')])]]"
    by code_simp
  have p: "map_err processedCdr [JObj [(''call_id'', JStr ''a'')],
        JObj [(''call_id'', JStr ''b''), (''fonoUC'', JObj [(''disposition'', JStr ''sale'')])]]
             = Inr [JObj [(''call_id'', JStr ''a'')],
        JObj [(''call_id'', JStr ''b''), (''fonoUC'', JObj [(''disposition'', JStr ''sale'')]),
              (''disposition'', JStr ''sale'')]]"
    by code_simp
  note t2 = normaliser_rules [where ms = "[(''cdrs'', JArr [JObj [(''call_id'', JStr ''a'')],
      JObj [(''call_id'', JStr ''b''), (''fonoUC'', JObj [(''disposition'', JStr ''sale'')])]]),
      (''total'', JNum 2)]"]
  from t2 w c p have r: "singlePage_rawData wrapped_body = Inr [wrapped_body]"
    "singlePage_records wrapped_body
       = Inr [JObj [(''call_id'', JStr ''a'')],
        JObj [(''call_id'', JStr ''b''), (''fonoUC'', JObj [(''disposition'', JStr ''sale'')]),
              (''disposition'', JStr ''sale'')]]"
    by (simp_all add: wrapped_body_def)
  from k s w r show ?thesis by simp
qed

text \<open>In \<^verbatim>\<open>{ key: k, ...v }\<close> a \<^verbatim>\<open>key\<close> property of the value itself replaces the key put in.\<close>

lemma own_key_wins:
  "fetchReport_chunk (JObj [(''x'', JObj [(''a'', JNum 1), (''key'', JStr ''own'')])])
     = Inr [JObj [(''key'', JStr ''own''), (''a'', JNum 1)]]"
  by code_simp

end
